theory Spec2Isabelle
  imports Main "HOL-Library.Word" "HOL-Library.List_Lexorder" "HOL-Library.Mapping"
    "HOL-Library.RBT_Mapping"
begin

unbundle bit_operations_syntax

section \<open>Bytes, slices and panics\<close>

text \<open>
  The block codec of \<^verbatim>\<open>internal/block.go\<close> works on Go byte slices and on the
  fixed-width integers \<^verbatim>\<open>uint16\<close> and \<^verbatim>\<open>uint32\<close>. A \<^verbatim>\<open>[]byte\<close> is a list of
  8-bit words, a \<^verbatim>\<open>[]uint16\<close> a list of 16-bit words. Conversions such as
  \<^verbatim>\<open>uint16(len(b.data))\<close> truncate, which is what \<open>word_of_nat\<close> does, and
  \<open>+\<close> on words wraps around as Go's unsigned addition does.

  Go's \<^verbatim>\<open>len\<close> returns an \<^verbatim>\<open>int\<close>. The lengths of slices that exist in memory,
  and the sums of a handful of them, stay far below the range of \<^verbatim>\<open>int\<close>, so
  lengths and sizes are natural numbers here; differences that can go negative
  (in the decoder) are integers. The budget \<^verbatim>\<open>blockSize\<close> and the position
  \<^verbatim>\<open>offsetIndex\<close> are of type \<^verbatim>\<open>uint\<close>; both are natural numbers: the budget is
  only compared with a size, and the position is only incremented while it is below
  the number of offsets.

  A run-time panic is a value of the type \<open>panic\<close>; a function that can
  panic returns \<open>panic + 'a\<close>.
\<close>

type_synonym byte = "8 word"
type_synonym uint16 = "16 word"
type_synonym uint32 = "32 word"

datatype panic =
    Panic string                 \<comment> \<open>an explicit \<^verbatim>\<open>panic(msg)\<close>\<close>
  | SliceBoundsOutOfRange        \<comment> \<open>a slice expression with bad bounds\<close>
  | IndexOutOfRange              \<comment> \<open>an index expression out of range\<close>

definition SizeOfUint16InBytes :: nat where
  "SizeOfUint16InBytes = 2"

definition SizeOfUint32InBytes :: nat where
  "SizeOfUint32InBytes = 4"

definition Tombstone :: uint32 where
  "Tombstone = 0xFFFFFFFF"

text \<open>
  The slice expression \<^verbatim>\<open>s[lo:]\<close> with an \<^verbatim>\<open>int\<close> index: a panic unless
  \<open>0 \<le> lo \<le> len(s)\<close>.
\<close>

definition slice_from :: "'a list \<Rightarrow> int \<Rightarrow> panic + 'a list" where
  "slice_from s lo =
     (if lo < 0 \<or> int (length s) < lo then Inl SliceBoundsOutOfRange
      else Inr (drop (nat lo) s))"

text \<open>The slice expression \<^verbatim>\<open>s[:hi]\<close> with an \<^verbatim>\<open>int\<close> index.\<close>

definition slice_to :: "'a list \<Rightarrow> int \<Rightarrow> panic + 'a list" where
  "slice_to s hi =
     (if hi < 0 \<or> int (length s) < hi then Inl SliceBoundsOutOfRange
      else Inr (take (nat hi) s))"

text \<open>
  The slice expression \<^verbatim>\<open>s[lo:hi]\<close> with unsigned indices. Go checks \<open>hi\<close>
  against the capacity of \<open>s\<close>; a slice is modelled by its visible elements, that is
  with capacity equal to length, so a record that runs past the end of \<open>s\<close> is a
  panic here. Wherever the model returns a slice, the bounds lie inside the length and
  Go returns the same bytes.
\<close>

definition slice :: "'a list \<Rightarrow> nat \<Rightarrow> nat \<Rightarrow> panic + 'a list" where
  "slice s lo hi =
     (if hi < lo \<or> length s < hi then Inl SliceBoundsOutOfRange
      else Inr (take (hi - lo) (drop lo s)))"

text \<open>\<^verbatim>\<open>binary.BigEndian.AppendUint16(b, v)\<close>: \<^verbatim>\<open>append(b, byte(v>>8), byte(v))\<close>.\<close>

definition AppendUint16 :: "byte list \<Rightarrow> uint16 \<Rightarrow> byte list" where
  "AppendUint16 b v = b @ [ucast (drop_bit 8 v), ucast v]"

text \<open>
  \<^verbatim>\<open>binary.BigEndian.AppendUint32(b, v)\<close>:
  \<^verbatim>\<open>append(b, byte(v>>24), byte(v>>16), byte(v>>8), byte(v))\<close>.
\<close>

definition AppendUint32 :: "byte list \<Rightarrow> uint32 \<Rightarrow> byte list" where
  "AppendUint32 b v =
     b @ [ucast (drop_bit 24 v), ucast (drop_bit 16 v), ucast (drop_bit 8 v), ucast v]"

text \<open>
  \<^verbatim>\<open>binary.BigEndian.Uint16(b)\<close>: the bounds check \<^verbatim>\<open>_ = b[1]\<close>, then
  \<^verbatim>\<open>uint16(b[1]) | uint16(b[0])<<8\<close>.
\<close>

fun Uint16 :: "byte list \<Rightarrow> panic + uint16" where
  "Uint16 (b0 # b1 # _) = Inr (ucast b1 OR push_bit 8 (ucast b0))"
| "Uint16 _ = Inl IndexOutOfRange"

text \<open>
  \<^verbatim>\<open>binary.BigEndian.Uint32(b)\<close>: the bounds check \<^verbatim>\<open>_ = b[3]\<close>, then
  \<^verbatim>\<open>uint32(b[3]) | uint32(b[2])<<8 | uint32(b[1])<<16 | uint32(b[0])<<24\<close>.
\<close>

fun Uint32 :: "byte list \<Rightarrow> panic + uint32" where
  "Uint32 (b0 # b1 # b2 # b3 # _) =
     Inr (ucast b3 OR push_bit 8 (ucast b2) OR push_bit 16 (ucast b1) OR push_bit 24 (ucast b0))"
| "Uint32 _ = Inl IndexOutOfRange"

section \<open>Block\<close>

record Block =
  data :: "byte list"
  offsets :: "uint16 list"

text \<open>
  \<^verbatim>\<open>Block.encode\<close>: the data, then every offset as a big-endian \<^verbatim>\<open>uint16\<close>, then
  the number of offsets converted to \<^verbatim>\<open>uint16\<close>.
\<close>

fun encode_offsets :: "byte list \<Rightarrow> uint16 list \<Rightarrow> byte list" where
  "encode_offsets buf [] = buf"
| "encode_offsets buf (offset # rest) = encode_offsets (AppendUint16 buf offset) rest"

definition encode :: "Block \<Rightarrow> byte list" where
  "encode b =
     (let buf = [] @ data b;
          buf = encode_offsets buf (offsets b)
      in AppendUint16 buf (word_of_nat (length (offsets b))))"

text \<open>
  The loop of \<^verbatim>\<open>decodeBytesToBlock\<close>:
  \<^verbatim>\<open>for i := 0; i < int(offsetCount); i++\<close>, reading one offset per round.
\<close>

function decode_offsets ::
  "byte list \<Rightarrow> int \<Rightarrow> nat \<Rightarrow> nat \<Rightarrow> uint16 list \<Rightarrow> panic + uint16 list" where
  "decode_offsets bytes offsetStartIndex offsetCount i acc =
     (if i < offsetCount then
        (case slice_from bytes (offsetStartIndex + int (i * SizeOfUint16InBytes)) of
           Inl p \<Rightarrow> Inl p
         | Inr s \<Rightarrow>
             (case Uint16 s of
                Inl p \<Rightarrow> Inl p
              | Inr w \<Rightarrow> decode_offsets bytes offsetStartIndex offsetCount (i + 1) (acc @ [w])))
      else Inr acc)"
  by pat_completeness auto
termination
  by (relation "measure (\<lambda>(bytes, offsetStartIndex, offsetCount, i, acc). offsetCount - i)") auto

declare decode_offsets.simps [simp del]

definition decodeBytesToBlock :: "byte list \<Rightarrow> panic + Block" where
  "decodeBytesToBlock bytes =
     (let offsetCountIndex = int (length bytes) - int SizeOfUint16InBytes in
      case slice_from bytes offsetCountIndex of
        Inl p \<Rightarrow> Inl p
      | Inr s \<Rightarrow>
          (case Uint16 s of
             Inl p \<Rightarrow> Inl p
           | Inr offsetCount \<Rightarrow>
               (let offsetStartIndex =
                      offsetCountIndex - int (unat offsetCount * SizeOfUint16InBytes) in
                case decode_offsets bytes offsetStartIndex (unat offsetCount) 0 [] of
                  Inl p \<Rightarrow> Inl p
                | Inr offs \<Rightarrow>
                    (case slice_to bytes offsetStartIndex of
                       Inl p \<Rightarrow> Inl p
                     | Inr d \<Rightarrow> Inr \<lparr>data = d, offsets = offs\<rparr>))))"

section \<open>BlockBuilder\<close>

record BlockBuilder =
  bb_offsets :: "uint16 list"
  bb_data :: "byte list"
  blockSize :: nat

datatype error = EmptyBlock

definition NewBlockBuilder :: "nat \<Rightarrow> BlockBuilder" where
  "NewBlockBuilder bs = \<lparr>bb_offsets = [], bb_data = [], blockSize = bs\<rparr>"

definition estimatedSize :: "BlockBuilder \<Rightarrow> nat" where
  "estimatedSize b =
     SizeOfUint16InBytes + (length (bb_offsets b) * SizeOfUint16InBytes) + length (bb_data b)"

definition isEmpty :: "BlockBuilder \<Rightarrow> bool" where
  "isEmpty b \<longleftrightarrow> length (bb_offsets b) = 0"

text \<open>
  \<^verbatim>\<open>value.Get()\<close> of an optional byte slice: the value and \<open>true\<close>, or the zero
  value (the nil slice) and \<open>false\<close>.

  \<^verbatim>\<open>BlockBuilder.add\<close> mutates the builder it is called on. The model returns the
  outcome of the call (a panic, or the returned boolean) together with the builder as
  the call leaves it, so that what a panicking or a refusing call did to the builder is
  part of the result.
\<close>

definition Get_opt :: "'a list option \<Rightarrow> 'a list \<times> bool" where
  "Get_opt v = (case v of Some x \<Rightarrow> (x, True) | None \<Rightarrow> ([], False))"

definition add ::
  "BlockBuilder \<Rightarrow> byte list \<Rightarrow> byte list option \<Rightarrow> (panic + bool) \<times> BlockBuilder" where
  "add b key v =
     (if length key = 0 then (Inl (Panic ''key must not be empty''), b)
      else
        let (val, ok) = Get_opt v;
            valueLen = (if ok then length val else 0);
            newSize = estimatedSize b + length key + valueLen
                      + (SizeOfUint16InBytes * 2) + SizeOfUint32InBytes
        in
          if newSize > blockSize b \<and> \<not> isEmpty b then (Inr False, b)
          else
            let b = b\<lparr>bb_offsets := bb_offsets b @ [word_of_nat (length (bb_data b))]\<rparr>;
                b = b\<lparr>bb_data := AppendUint16 (bb_data b) (word_of_nat (length key))\<rparr>;
                b = b\<lparr>bb_data := bb_data b @ key\<rparr>;
                b = (if valueLen > 0
                     then
                       let b = b\<lparr>bb_data := AppendUint32 (bb_data b) (word_of_nat valueLen)\<rparr>
                       in b\<lparr>bb_data := bb_data b @ val\<rparr>
                     else b\<lparr>bb_data := AppendUint32 (bb_data b) Tombstone\<rparr>)
            in (Inr True, b))"

definition build :: "BlockBuilder \<Rightarrow> error + Block" where
  "build b =
     (if isEmpty b then Inl EmptyBlock
      else Inr \<lparr>data = bb_data b, offsets = bb_offsets b\<rparr>)"

text \<open>
  The loop of the tests and of the flush path: the records are offered to the builder
  one after the other; the returned booleans are collected, and a panic ends the run.
\<close>

fun add_all ::
  "BlockBuilder \<Rightarrow> (byte list \<times> byte list option) list \<Rightarrow> (panic + bool list) \<times> BlockBuilder" where
  "add_all b [] = (Inr [], b)"
| "add_all b ((k, v) # rs) =
     (case add b k v of
        (Inl p, b') \<Rightarrow> (Inl p, b')
      | (Inr ok, b') \<Rightarrow>
          (case add_all b' rs of
             (Inl p, b'') \<Rightarrow> (Inl p, b'')
           | (Inr oks, b'') \<Rightarrow> (Inr (ok # oks), b'')))"

section \<open>BlockIterator\<close>

text \<open>
  The types \<^verbatim>\<open>KeyValue\<close>, \<^verbatim>\<open>ValueDeletable\<close> and \<^verbatim>\<open>KeyValueDeletable\<close> are
  declared elsewhere in the package; their fields are the ones the iterator fills in.
  A nil slice is the empty list.
\<close>

record KeyValue =
  kv_key :: "byte list"
  kv_value :: "byte list"

record ValueDeletable =
  vd_value :: "byte list"
  isTombstone :: bool

record KeyValueDeletable =
  kvd_key :: "byte list"
  valueDel :: ValueDeletable

record BlockIterator =
  block :: Block
  offsetIndex :: nat

text \<open>
  The body of the loop of \<^verbatim>\<open>newBlockIteratorFromKey\<close>: the key of the record at
  \<open>offset\<close>. The additions are on \<^verbatim>\<open>uint16\<close> and wrap around.
\<close>

definition curKey :: "byte list \<Rightarrow> uint16 \<Rightarrow> panic + byte list" where
  "curKey d offset =
     (let off = offset in
      case slice_from d (uint off) of
        Inl p \<Rightarrow> Inl p
      | Inr s \<Rightarrow>
          (case Uint16 s of
             Inl p \<Rightarrow> Inl p
           | Inr keyLen \<Rightarrow>
               (let off = off + word_of_nat SizeOfUint16InBytes
                in slice d (unat off) (unat (off + keyLen)))))"

text \<open>
  \<^verbatim>\<open>for i, offset := range block.offsets\<close>: the first index whose key compares
  \<open>\<ge>\<close> the target (\<^verbatim>\<open>bytes.Compare\<close> is the lexicographic order on byte lists), or
  the initial \<open>index\<close> when the loop runs to its end.
\<close>

fun seek_loop :: "byte list \<Rightarrow> byte list \<Rightarrow> uint16 list \<Rightarrow> nat \<Rightarrow> nat \<Rightarrow> panic + nat" where
  "seek_loop d k [] i index = Inr index"
| "seek_loop d k (offset # rest) i index =
     (case curKey d offset of
        Inl p \<Rightarrow> Inl p
      | Inr ck \<Rightarrow> if ck \<ge> k then Inr i else seek_loop d k rest (i + 1) index)"

definition newBlockIteratorFromKey :: "Block \<Rightarrow> byte list \<Rightarrow> panic + BlockIterator" where
  "newBlockIteratorFromKey blk k =
     (let d = data blk;
          index = length (offsets blk)
      in case seek_loop d k (offsets blk) 0 index of
           Inl p \<Rightarrow> Inl p
         | Inr index \<Rightarrow> Inr \<lparr>block = blk, offsetIndex = index\<rparr>)"

definition newBlockIteratorFromFirstKey :: "Block \<Rightarrow> BlockIterator" where
  "newBlockIteratorFromFirstKey blk = \<lparr>block = blk, offsetIndex = 0\<rparr>"

definition loadAtCurrentOffset :: "BlockIterator \<Rightarrow> panic + KeyValueDeletable option" where
  "loadAtCurrentOffset b =
     (if offsetIndex b \<ge> length (offsets (block b)) then Inr None
      else
        let d = data (block b);
            offset = offsets (block b) ! offsetIndex b
        in
        case slice_from d (uint offset) of
          Inl p \<Rightarrow> Inl p
        | Inr s \<Rightarrow>
        (case Uint16 s of
          Inl p \<Rightarrow> Inl p
        | Inr keyLen \<Rightarrow>
        (let offset = offset + word_of_nat SizeOfUint16InBytes in
         case slice d (unat offset) (unat (offset + keyLen)) of
          Inl p \<Rightarrow> Inl p
        | Inr k \<Rightarrow>
        (let offset = offset + keyLen in
         case slice_from d (uint offset) of
          Inl p \<Rightarrow> Inl p
        | Inr s \<Rightarrow>
        (case Uint32 s of
          Inl p \<Rightarrow> Inl p
        | Inr valueLen \<Rightarrow>
        (let offset = offset + word_of_nat SizeOfUint32InBytes in
         if valueLen \<noteq> Tombstone then
           (case slice d (unat offset) (unat ((ucast offset :: uint32) + valueLen)) of
              Inl p \<Rightarrow> Inl p
            | Inr v \<Rightarrow>
                Inr (Some \<lparr>kvd_key = k, valueDel = \<lparr>vd_value = v, isTombstone = False\<rparr>\<rparr>))
         else
           Inr (Some \<lparr>kvd_key = k, valueDel = \<lparr>vd_value = [], isTombstone = True\<rparr>\<rparr>)))))))"

definition advance :: "BlockIterator \<Rightarrow> BlockIterator" where
  "advance b = b\<lparr>offsetIndex := offsetIndex b + 1\<rparr>"

text \<open>
  \<^verbatim>\<open>NextEntry\<close> and \<^verbatim>\<open>Next\<close> return their result together with the iterator as
  the call leaves it.
\<close>

definition NextEntry :: "BlockIterator \<Rightarrow> panic + (KeyValueDeletable option \<times> BlockIterator)" where
  "NextEntry b =
     (case loadAtCurrentOffset b of
        Inl p \<Rightarrow> Inl p
      | Inr None \<Rightarrow> Inr (None, b)
      | Inr (Some keyValue) \<Rightarrow> Inr (Some keyValue, advance b))"

function Next :: "BlockIterator \<Rightarrow> panic + (KeyValue option \<times> BlockIterator)" where
  "Next b =
     (case NextEntry b of
        Inl p \<Rightarrow> Inl p
      | Inr (None, b') \<Rightarrow> Inr (None, b')
      | Inr (Some keyVal, b') \<Rightarrow>
          if isTombstone (valueDel keyVal) then Next b'
          else Inr (Some \<lparr>kv_key = kvd_key keyVal, kv_value = vd_value (valueDel keyVal)\<rparr>, b'))"
  by pat_completeness auto
termination
proof (relation "measure (\<lambda>b. length (offsets (block b)) - offsetIndex b)")
  show "wf (measure (\<lambda>b. length (offsets (block b)) - offsetIndex b))"
    by simp
next
  fix b :: BlockIterator and x2 x1 b' keyVal
  assume "NextEntry b = Inr x2" and "(x1, b') = x2" and "x1 = Some keyVal"
  then have ne: "NextEntry b = Inr (Some keyVal, b')"
    by simp
  then have "loadAtCurrentOffset b = Inr (Some keyVal)" and b': "b' = advance b"
    by (auto simp: NextEntry_def split: sum.splits option.splits)
  then have "offsetIndex b < length (offsets (block b))"
    by (auto simp: loadAtCurrentOffset_def split: if_splits)
  with b' show "(b', b) \<in> measure (\<lambda>b. length (offsets (block b)) - offsetIndex b)"
    by (auto simp: advance_def)
qed

declare Next.simps [simp del]

section \<open>The layout of a block\<close>

text \<open>
  The statements below speak about what a block holds. These definitions describe the
  bytes that \<^verbatim>\<open>add\<close> and \<^verbatim>\<open>encode\<close> produce and the records that a block is
  expected to yield; the lemmas that follow relate them to the functions above.
\<close>

definition be16 :: "uint16 \<Rightarrow> byte list" where
  "be16 v = [ucast (drop_bit 8 v), ucast v]"

definition be32 :: "uint32 \<Rightarrow> byte list" where
  "be32 v = [ucast (drop_bit 24 v), ucast (drop_bit 16 v), ucast (drop_bit 8 v), ucast v]"

text \<open>
  The value part of a record: the sentinel alone for an absent or an empty value, the
  length and the bytes otherwise.
\<close>

definition value_bytes :: "byte list option \<Rightarrow> byte list" where
  "value_bytes v =
     (case v of
        None \<Rightarrow> be32 Tombstone
      | Some x \<Rightarrow> if x = [] then be32 Tombstone else be32 (word_of_nat (length x)) @ x)"

definition record_bytes :: "byte list \<Rightarrow> byte list option \<Rightarrow> byte list" where
  "record_bytes k v = be16 (word_of_nat (length k)) @ k @ value_bytes v"

text \<open>What one record adds to the encoded size: its offset and its bytes.\<close>

definition rec_size :: "byte list \<times> byte list option \<Rightarrow> nat" where
  "rec_size r = (case r of (k, v) \<Rightarrow> 2 + length (record_bytes k v))"

text \<open>
  The size that \<^verbatim>\<open>add\<close> compares with the budget: two count bytes, two bytes per
  offset with the new one, the data with the new record.
\<close>

definition projected_size :: "BlockBuilder \<Rightarrow> byte list \<Rightarrow> byte list option \<Rightarrow> nat" where
  "projected_size b k v =
     2 + 2 * (length (bb_offsets b) + 1)
       + (length (bb_data b)
          + (2 + length k + 4 + (case v of None \<Rightarrow> 0 | Some x \<Rightarrow> length x)))"

text \<open>The offsets of records laid out one after the other from position \<open>n\<close>.\<close>

fun offsets_from :: "nat \<Rightarrow> (byte list \<times> byte list option) list \<Rightarrow> uint16 list" where
  "offsets_from n [] = []"
| "offsets_from n ((k, v) # rs) = word_of_nat n # offsets_from (n + length (record_bytes k v)) rs"

text \<open>The entry that a record is expected to decode to.\<close>

definition entry_of :: "byte list \<times> byte list option \<Rightarrow> KeyValueDeletable" where
  "entry_of r =
     (case r of
        (k, None) \<Rightarrow> \<lparr>kvd_key = k, valueDel = \<lparr>vd_value = [], isTombstone = True\<rparr>\<rparr>
      | (k, Some x) \<Rightarrow>
          if x = [] then \<lparr>kvd_key = k, valueDel = \<lparr>vd_value = [], isTombstone = True\<rparr>\<rparr>
          else \<lparr>kvd_key = k, valueDel = \<lparr>vd_value = x, isTombstone = False\<rparr>\<rparr>)"

definition is_tombstone_record :: "byte list \<times> byte list option \<Rightarrow> bool" where
  "is_tombstone_record r = isTombstone (valueDel (entry_of r))"

definition live_pair :: "byte list \<times> byte list option \<Rightarrow> KeyValue" where
  "live_pair r = \<lparr>kv_key = kvd_key (entry_of r), kv_value = vd_value (valueDel (entry_of r))\<rparr>"

text \<open>
  \<open>record_at d off r\<close>: the bytes of the record \<open>r\<close> lie in \<open>d\<close> at \<open>off\<close>, the
  header of the record ends below position 65536, so that the 16-bit offset
  arithmetic of the iterator does not wrap around, and the length of the value fits its
  32-bit field without meeting the sentinel.
\<close>

definition record_at :: "byte list \<Rightarrow> uint16 \<Rightarrow> byte list \<times> byte list option \<Rightarrow> bool" where
  "record_at d off r =
     (case r of (k, v) \<Rightarrow>
        take (length (record_bytes k v)) (drop (unat off) d) = record_bytes k v
        \<and> unat off + 2 + length k + 4 < 65536
        \<and> (case v of None \<Rightarrow> True | Some x \<Rightarrow> length x < 4294967295 - 65536))"

text \<open>\<open>block_holds blk rs\<close>: the offsets of \<open>blk\<close> point, in order, at the records \<open>rs\<close>.\<close>

definition block_holds :: "Block \<Rightarrow> (byte list \<times> byte list option) list \<Rightarrow> bool" where
  "block_holds blk rs = list_all2 (record_at (data blk)) (offsets blk) rs"

text \<open>
  \<open>key_at d off k\<close>: at \<open>off\<close> the data \<open>d\<close> holds the two-byte length of the key
  \<open>k\<close> followed by the bytes of \<open>k\<close>, and the key ends below position 65536, so that
  the 16-bit arithmetic of the seek does not wrap around. \<open>block_keys blk ks\<close>: the
  offsets of \<open>blk\<close> point, in order, at the keys \<open>ks\<close>.
\<close>

definition key_at :: "byte list \<Rightarrow> uint16 \<Rightarrow> byte list \<Rightarrow> bool" where
  "key_at d off k \<longleftrightarrow>
     take (2 + length k) (drop (unat off) d) = be16 (word_of_nat (length k)) @ k
     \<and> unat off + 2 + length k < 65536"

definition block_keys :: "Block \<Rightarrow> byte list list \<Rightarrow> bool" where
  "block_keys blk ks = list_all2 (key_at (data blk)) (offsets blk) ks"

text \<open>
  A builder with a budget of one mebibyte that is offered 65536 records with the
  distinct, ascending two-byte keys \<open>0x0000\<close> to \<open>0xFFFF\<close> and no values.
\<close>

definition many_records :: "(byte list \<times> byte list option) list" where
  "many_records = map (\<lambda>i. (be16 (word_of_nat i), None)) [0..<65536]"

definition big_builder :: BlockBuilder where
  "big_builder = snd (add_all (NewBlockBuilder 1048576) many_records)"

definition big_block :: Block where
  "big_block = \<lparr>data = bb_data big_builder, offsets = bb_offsets big_builder\<rparr>"

text \<open>The block that \<^verbatim>\<open>build\<close> returns for a builder that is not empty.\<close>

definition built_block :: "BlockBuilder \<Rightarrow> Block" where
  "built_block b = \<lparr>data = bb_data b, offsets = bb_offsets b\<rparr>"

text \<open>
  The block of the iterator tests of \<^verbatim>\<open>block_test.go\<close>: the keys "donkey", "kratos"
  and "super" with the values "kong", "atreus" and "mario", as bytes.
\<close>

definition test_records :: "(byte list \<times> byte list option) list" where
  "test_records =
     [([100, 111, 110, 107, 101, 121], Some [107, 111, 110, 103]),
      ([107, 114, 97, 116, 111, 115], Some [97, 116, 114, 101, 117, 115]),
      ([115, 117, 112, 101, 114], Some [109, 97, 114, 105, 111])]"

definition test_block :: Block where
  "test_block = \<lparr>data = concat (map (\<lambda>(k, v). record_bytes k v) test_records),
                  offsets = offsets_from 0 test_records\<rparr>"

text \<open>A block with a value, an absent value, an empty value and a value again.\<close>

definition tomb_records :: "(byte list \<times> byte list option) list" where
  "tomb_records = [([1, 2, 3], Some [9, 9]), ([1, 5], None), ([2], Some []), ([3, 0], Some [7])]"

definition tomb_block :: Block where
  "tomb_block = \<lparr>data = concat (map (\<lambda>(k, v). record_bytes k v) tomb_records),
                  offsets = offsets_from 0 tomb_records\<rparr>"

text \<open>
  A key of 65536 bytes, starting \<open>00 00 00 01\<close>, and the block that a builder holds
  after this key has been added, with no value, as its first record.
\<close>

definition long_key :: "byte list" where
  "long_key = [0, 0, 0, 1] @ replicate 65532 0"

definition long_block :: Block where
  "long_block = \<lparr>data = [0, 0] @ long_key @ [255, 255, 255, 255], offsets = [0]\<rparr>"

text \<open>
  A key of 65534 bytes, the longest but one that the 16-bit length field can hold, and
  the block that a builder holds after this key has been added, with no value, as its
  first record.
\<close>

definition edge_key :: "byte list" where
  "edge_key = replicate 65534 1"

definition edge_block :: Block where
  "edge_block = \<lparr>data = [255, 254] @ edge_key @ [255, 255, 255, 255], offsets = [0]\<rparr>"

section \<open>Memtable\<close>

text \<open>
  Modelled from the spec: the type of a memtable entry. The memtable
  (\<^verbatim>\<open>slatedb/table/memtable.go\<close>) is not among the sources, only its tests are. The spec
  describes a stored entry as a tagged union of a value and a tombstone.
\<close>

datatype mem_value = Value "byte list" | Deleted

text \<open>
  Modelled from the spec: the Memtable, "an ordered associative structure mapping key to
  value-or-tombstone, ordered by byte-lexicographic key comparison". The accounted size
  and the WAL id that the table also carries are read by none of the operations below
  and are left out.
\<close>

record Memtable =
  table :: "(byte list, mem_value) mapping"

text \<open>Modelled from the spec: \<^verbatim>\<open>NewMemtable\<close>, the empty table (the constructor the tests call).\<close>

definition NewMemtable :: Memtable where
  "NewMemtable = \<lparr>table = Mapping.empty\<rparr>"

text \<open>Modelled from the spec: \<^verbatim>\<open>Put(key, value)\<close> "inserts or overwrites".\<close>

definition Put :: "Memtable \<Rightarrow> byte list \<Rightarrow> byte list \<Rightarrow> Memtable" where
  "Put m k v = m\<lparr>table := Mapping.update k (Value v) (table m)\<rparr>"

text \<open>
  Modelled from the spec: \<^verbatim>\<open>Delete(key)\<close> "inserts a tombstone marker for key (does not
  remove the key from the structure)".
\<close>

definition Delete :: "Memtable \<Rightarrow> byte list \<Rightarrow> Memtable" where
  "Delete m k = m\<lparr>table := Mapping.update k Deleted (table m)\<rparr>"

text \<open>
  Modelled from the spec: \<^verbatim>\<open>Get(key)\<close>, "none if the key has never been written;
  otherwise the live value or an explicit tombstone marker".
\<close>

definition Get :: "Memtable \<Rightarrow> byte list \<Rightarrow> mem_value option" where
  "Get m k = Mapping.lookup (table m) k"

text \<open>
  Modelled from the spec: the filter shared by \<^verbatim>\<open>Iter\<close> and \<^verbatim>\<open>RangeFrom\<close>, "tombstones
  filtered out": of the keys \<open>ks\<close>, those with a live value, with that value.
\<close>

definition live_entries :: "Memtable \<Rightarrow> byte list list \<Rightarrow> (byte list \<times> byte list) list" where
  "live_entries m ks =
     concat (map (\<lambda>k. case Mapping.lookup (table m) k of
                          Some (Value v) \<Rightarrow> [(k, v)]
                        | _ \<Rightarrow> []) ks)"

text \<open>
  Modelled from the spec: \<^verbatim>\<open>Iter()\<close>, the "sequence of (key, value), ascending key
  order, tombstones filtered out".
\<close>

definition Iter :: "Memtable \<Rightarrow> (byte list \<times> byte list) list" where
  "Iter m = live_entries m (Mapping.ordered_keys (table m))"

text \<open>
  Modelled from the spec: \<^verbatim>\<open>RangeFrom(key)\<close>, the "sequence of (key, value) starting at
  the first stored key \<open>\<ge>\<close> key, same tombstone-filtering semantics as Iter".
\<close>

definition RangeFrom :: "Memtable \<Rightarrow> byte list \<Rightarrow> (byte list \<times> byte list) list" where
  "RangeFrom m start = live_entries m (filter (\<lambda>k. start \<le> k) (Mapping.ordered_keys (table m)))"

section \<open>Lemmas\<close>

subsection \<open>Big-endian fields\<close>

lemma AppendUint16_be16: "AppendUint16 b v = b @ be16 v"
  by (simp add: AppendUint16_def be16_def)

lemma AppendUint32_be32: "AppendUint32 b v = b @ be32 v"
  by (simp add: AppendUint32_def be32_def)

lemma length_be16 [simp]: "length (be16 v) = 2"
  by (simp add: be16_def)

lemma length_be32 [simp]: "length (be32 v) = 4"
  by (simp add: be32_def)

lemma u16_join: "ucast (ucast v :: byte) OR push_bit 8 (ucast (ucast (drop_bit 8 v) :: byte)) = (v :: uint16)"
  by (rule bit_word_eqI) (auto simp: bit_simps)

lemma u32_join: "ucast (ucast v :: byte) OR push_bit 8 (ucast (ucast (drop_bit 8 v) :: byte)) OR push_bit 16 (ucast (ucast (drop_bit 16 v) :: byte)) OR push_bit 24 (ucast (ucast (drop_bit 24 v) :: byte)) = (v :: uint32)"
proof (rule bit_word_eqI)
  fix n :: nat
  assume "n < LENGTH(32)"
  then have n: "n < 32" by simp
  consider "n < 8" | "8 \<le> n" "n < 16" | "16 \<le> n" "n < 24" | "24 \<le> n" by linarith
  then show "bit (ucast (ucast v :: byte) OR push_bit 8 (ucast (ucast (drop_bit 8 v) :: byte)) OR push_bit 16 (ucast (ucast (drop_bit 16 v) :: byte)) OR push_bit 24 (ucast (ucast (drop_bit 24 v) :: byte)) :: uint32) n = bit v n"
    using n by cases (auto simp: bit_simps)
qed

lemma Uint16_be16 [simp]: "Uint16 (be16 v @ rest) = Inr v"
  by (simp add: be16_def u16_join)

lemma Uint32_be32 [simp]: "Uint32 (be32 v @ rest) = Inr v"
  by (simp add: be32_def u32_join)

lemma Uint16_short: "length s < 2 \<Longrightarrow> Uint16 s = Inl IndexOutOfRange"
  by (cases s rule: Uint16.cases) auto

subsection \<open>Encoding and decoding a block\<close>

lemma encode_offsets_concat: "encode_offsets buf offs = buf @ concat (map be16 offs)"
  by (induction offs arbitrary: buf) (auto simp: AppendUint16_be16)

lemma length_concat_be16 [simp]: "length (concat (map be16 offs)) = 2 * length offs"
  by (induction offs) auto

lemma encode_eq:
  "encode b = data b @ concat (map be16 (offsets b)) @ be16 (word_of_nat (length (offsets b)))"
  by (simp add: encode_def encode_offsets_concat AppendUint16_be16)

lemma length_encode: "length (encode b) = length (data b) + 2 * length (offsets b) + 2"
  by (simp add: encode_eq)

subsection \<open>What \<^verbatim>\<open>add\<close> does\<close>

lemma add_accept:
  assumes "key \<noteq> []"
  shows "add b key v =
     (if blockSize b < 2 + 2 * (length (bb_offsets b) + 1)
                       + (length (bb_data b) + (2 + length key + 4
                          + (case v of None \<Rightarrow> 0 | Some x \<Rightarrow> length x)))
          \<and> bb_offsets b \<noteq> []
      then (Inr False, b)
      else (Inr True,
            b\<lparr>bb_offsets := bb_offsets b @ [word_of_nat (length (bb_data b))],
              bb_data := bb_data b @ record_bytes key v\<rparr>))"
  using assms
  by (cases v)
     (auto simp: add_def Get_opt_def estimatedSize_def isEmpty_def SizeOfUint16InBytes_def
        SizeOfUint32InBytes_def AppendUint16_be16 AppendUint32_be32 record_bytes_def
        value_bytes_def Let_def)

lemma drop_concat_be16: "drop (2 * i) (concat (map be16 offs)) = concat (map be16 (drop i offs))"
proof (induction offs arbitrary: i)
  case Nil
  then show ?case by simp
next
  case (Cons w ws)
  show ?case
  proof (cases i)
    case 0
    then show ?thesis by simp
  next
    case (Suc j)
    with Cons.IH [of j] show ?thesis by simp
  qed
qed

lemma slice_from_nat: "m \<le> length s \<Longrightarrow> slice_from s (int m) = Inr (drop m s)"
  by (simp add: slice_from_def)

lemma slice_to_nat: "m \<le> length s \<Longrightarrow> slice_to s (int m) = Inr (take m s)"
  by (simp add: slice_to_def)

lemma decode_offsets_ok:
  "i \<le> length offs \<Longrightarrow>
   decode_offsets (pre @ concat (map be16 offs) @ post) (int (length pre)) (length offs) i acc
     = Inr (acc @ drop i offs)"
proof (induction "length offs - i" arbitrary: i acc)
  case 0
  then show ?case by (simp add: decode_offsets.simps)
next
  case (Suc n)
  then have i: "i < length offs" by simp
  have "drop (length pre + 2 * i) (pre @ concat (map be16 offs) @ post)
          = concat (map be16 (drop i offs)) @ post"
    using i by (simp add: drop_concat_be16 del: concat_append)
  also have "drop i offs = offs ! i # drop (Suc i) offs"
    using i by (simp add: Cons_nth_drop_Suc)
  finally have d: "drop (length pre + 2 * i) (pre @ concat (map be16 offs) @ post)
          = be16 (offs ! i) @ concat (map be16 (drop (Suc i) offs)) @ post"
    by simp
  have s: "slice_from (pre @ concat (map be16 offs) @ post)
            (int (length pre) + int (i * SizeOfUint16InBytes))
          = Inr (be16 (offs ! i) @ concat (map be16 (drop (Suc i) offs)) @ post)"
  proof -
    have idx: "int (length pre) + int (i * SizeOfUint16InBytes) = int (length pre + 2 * i)"
      by (simp add: SizeOfUint16InBytes_def)
    have "length pre + 2 * i \<le> length (pre @ concat (map be16 offs) @ post)"
      using i by simp
    then show ?thesis
      unfolding idx d [symmetric] by (rule slice_from_nat)
  qed
  have "decode_offsets (pre @ concat (map be16 offs) @ post) (int (length pre)) (length offs)
          (i + 1) (acc @ [offs ! i]) = Inr ((acc @ [offs ! i]) @ drop (i + 1) offs)"
    using Suc.hyps(2) i by (intro Suc.hyps(1)) auto
  then show ?case
    using i s by (subst decode_offsets.simps) (simp add: Cons_nth_drop_Suc)
qed

lemma decode_offsets_length:
  "decode_offsets bytes s c i acc = Inr r \<Longrightarrow> i \<le> c \<Longrightarrow> length r = length acc + (c - i)"
proof (induction bytes s c i acc rule: decode_offsets.induct)
  case (1 bytes s c i acc)
  show ?case
  proof (cases "i < c")
    case True
    with "1.prems" obtain sl w where
      "slice_from bytes (s + int (i * SizeOfUint16InBytes)) = Inr sl" "Uint16 sl = Inr w"
      and rec: "decode_offsets bytes s c (i + 1) (acc @ [w]) = Inr r"
      by (subst (asm) decode_offsets.simps) (auto split: sum.splits)
    with "1.IH" [of sl w] True show ?thesis by simp
  next
    case False
    with "1.prems" show ?thesis by (subst (asm) decode_offsets.simps) simp
  qed
qed

lemma decodeBytesToBlock_count:
  assumes "decodeBytesToBlock bytes = Inr blk"
  shows "length (offsets blk) < 65536"
proof -
  from assms obtain c :: uint16 and s where "decode_offsets bytes s (unat c) 0 [] = Inr (offsets blk)"
    by (auto simp: decodeBytesToBlock_def Let_def split: sum.splits)
  then have "length (offsets blk) = unat c"
    using decode_offsets_length by fastforce
  moreover have "unat c < 2 ^ LENGTH(16)" by (rule unsigned_less)
  ultimately show ?thesis by simp
qed

lemma decode_encode:
  fixes b :: Block
  defines "n \<equiv> length (offsets b)"
  defines "c \<equiv> n mod 65536"
  shows "decodeBytesToBlock (encode b) =
           Inr \<lparr>data = data b @ concat (map be16 (take (n - c) (offsets b))),
                offsets = drop (n - c) (offsets b)\<rparr>"
proof -
  let ?pre = "data b @ concat (map be16 (take (n - c) (offsets b)))"
  let ?offs = "drop (n - c) (offsets b)"
  let ?post = "be16 (word_of_nat n)"
  have cn: "c \<le> n" by (simp add: c_def)
  have lo: "length ?offs = c" using cn by (simp add: n_def)
  have enc: "encode b = ?pre @ concat (map be16 ?offs) @ ?post"
    unfolding encode_eq n_def [symmetric]
    by (simp flip: concat_append map_append)
  have len: "length (encode b) = length ?pre + 2 * c + 2"
    unfolding enc using lo by simp
  have cnt: "unat (word_of_nat n :: uint16) = c"
    by (simp add: unat_of_nat c_def)
  have 1: "slice_from (encode b) (int (length (encode b)) - int SizeOfUint16InBytes) = Inr ?post"
    unfolding len unfolding enc using lo
    by (simp add: slice_from_def SizeOfUint16InBytes_def nat_add_distrib nat_diff_distrib)
  have 2: "int (length (encode b)) - int SizeOfUint16InBytes
             - int (unat (word_of_nat n :: uint16) * SizeOfUint16InBytes) = int (length ?pre)"
    unfolding len cnt by (simp add: SizeOfUint16InBytes_def)
  have 3: "decode_offsets (encode b) (int (length ?pre)) c 0 [] = Inr ?offs"
    unfolding enc using decode_offsets_ok [of 0 ?offs ?pre ?post "[]"] lo by simp
  have 4: "slice_to (encode b) (int (length ?pre)) = Inr ?pre"
    unfolding enc by (simp add: slice_to_def)
  have u: "Uint16 ?post = Inr (word_of_nat n)"
    using Uint16_be16 [of "word_of_nat n" "[]"] by simp
  show ?thesis
    unfolding decodeBytesToBlock_def Let_def 1 using u 2 3 4 cnt by simp
qed

lemma length_offsets_from [simp]: "length (offsets_from n rs) = length rs"
  by (induction n rs rule: offsets_from.induct) auto

lemma length_record_bytes:
  "length (record_bytes k v) = 2 + length k + 4 + (case v of None \<Rightarrow> 0 | Some x \<Rightarrow> length x)"
  by (auto simp: record_bytes_def value_bytes_def split: option.splits)

lemma estimatedSize_eq: "estimatedSize b = 2 + 2 * length (bb_offsets b) + length (bb_data b)"
  by (simp add: estimatedSize_def SizeOfUint16InBytes_def)

lemma add_fits:
  assumes "k \<noteq> []" and "estimatedSize b + rec_size (k, v) \<le> blockSize b"
  shows "add b k v = (Inr True,
            b\<lparr>bb_offsets := bb_offsets b @ [word_of_nat (length (bb_data b))],
              bb_data := bb_data b @ record_bytes k v\<rparr>)"
  using assms by (simp add: add_accept estimatedSize_eq rec_size_def length_record_bytes)

lemma add_all_fits:
  assumes "\<forall>r \<in> set rs. fst r \<noteq> []"
    and "estimatedSize b + sum_list (map rec_size rs) \<le> blockSize b"
  shows "add_all b rs = (Inr (replicate (length rs) True),
            b\<lparr>bb_offsets := bb_offsets b @ offsets_from (length (bb_data b)) rs,
              bb_data := bb_data b @ concat (map (\<lambda>(k, v). record_bytes k v) rs)\<rparr>)"
  using assms
proof (induction rs arbitrary: b)
  case Nil
  then show ?case by simp
next
  case (Cons r rs)
  obtain k v where r: "r = (k, v)" by (cases r)
  let ?b = "b\<lparr>bb_offsets := bb_offsets b @ [word_of_nat (length (bb_data b))],
              bb_data := bb_data b @ record_bytes k v\<rparr>"
  have a: "add b k v = (Inr True, ?b)"
    using Cons.prems r by (intro add_fits) auto
  have "estimatedSize ?b = estimatedSize b + rec_size (k, v)"
    by (simp add: estimatedSize_eq rec_size_def)
  then have p2: "estimatedSize ?b + sum_list (map rec_size rs) \<le> blockSize ?b"
    using Cons.prems r by simp
  have p1: "\<forall>r \<in> set rs. fst r \<noteq> []"
    using Cons.prems by simp
  have "add_all ?b rs = (Inr (replicate (length rs) True),
            ?b\<lparr>bb_offsets := bb_offsets ?b @ offsets_from (length (bb_data ?b)) rs,
              bb_data := bb_data ?b @ concat (map (\<lambda>(k, v). record_bytes k v) rs)\<rparr>)"
    by (rule Cons.IH [OF p1 p2])
  then show ?case
    using a r by simp
qed

lemma many_records_accepted:
  "add_all (NewBlockBuilder 1048576) many_records =
     (Inr (replicate 65536 True),
      \<lparr>bb_offsets = offsets_from 0 many_records,
       bb_data = concat (map (\<lambda>(k, v). record_bytes k v) many_records),
       blockSize = 1048576\<rparr>)"
proof -
  have k: "\<forall>r \<in> set many_records. fst r \<noteq> []"
    by (auto simp: many_records_def be16_def)
  have "map rec_size many_records = map (\<lambda>i. 10) [0..<65536]"
    by (simp add: many_records_def rec_size_def length_record_bytes)
  then have "sum_list (map rec_size many_records) = 655360"
    by (simp add: sum_list_triv)
  then have "estimatedSize (NewBlockBuilder 1048576) + sum_list (map rec_size many_records)
               \<le> blockSize (NewBlockBuilder 1048576)"
    by (simp add: estimatedSize_eq NewBlockBuilder_def)
  from add_all_fits [OF k this] show ?thesis
    by (simp add: NewBlockBuilder_def many_records_def)
qed

lemma big_block_length: "length (offsets big_block) = 65536"
  by (simp add: big_block_def big_builder_def many_records_accepted) (simp add: many_records_def)

subsection \<open>Reading a record back\<close>

lemma record_bytes_eq: "record_bytes k v = be16 (word_of_nat (length k)) @ k @ value_bytes v"
  by (simp add: record_bytes_def)

lemma unat_u16: "n < 65536 \<Longrightarrow> unat (word_of_nat n :: uint16) = n"
  by (simp add: unat_of_nat)

lemma unat_u32: "n < 4294967296 \<Longrightarrow> unat (word_of_nat n :: uint32) = n"
  by (simp add: unat_of_nat)

lemma uint_u16: "n < 65536 \<Longrightarrow> uint (word_of_nat n :: uint16) = int n"
  by (simp add: uint_nat unat_u16)

lemma ucast16_32: "n < 65536 \<Longrightarrow> (ucast (word_of_nat n :: uint16) :: uint32) = word_of_nat n"
  by (simp add: unsigned_of_nat take_bit_nat_eq_self)

lemma slice_mid:
  "length pre = lo \<Longrightarrow> hi = lo + length xs \<Longrightarrow> slice (pre @ xs @ post) lo hi = Inr xs"
  by (simp add: slice_def)

lemma offset_arith:
  fixes n :: nat and k :: "byte list"
  assumes b1: "n + 2 + length k + 4 < 65536"
  shows "uint (word_of_nat n :: uint16) = int n"
    and "unat ((word_of_nat n :: uint16) + word_of_nat SizeOfUint16InBytes) = n + 2"
    and "unat ((word_of_nat n :: uint16) + word_of_nat SizeOfUint16InBytes
               + word_of_nat (length k)) = n + 2 + length k"
    and "uint ((word_of_nat n :: uint16) + word_of_nat SizeOfUint16InBytes
               + word_of_nat (length k)) = int (n + 2 + length k)"
    and "unat ((word_of_nat n :: uint16) + word_of_nat SizeOfUint16InBytes
               + word_of_nat (length k) + word_of_nat SizeOfUint32InBytes) = n + 2 + length k + 4"
    and "(ucast ((word_of_nat n :: uint16) + word_of_nat SizeOfUint16InBytes
               + word_of_nat (length k) + word_of_nat SizeOfUint32InBytes) :: uint32)
           = word_of_nat (n + 2 + length k + 4)"
proof -
  have a: "(word_of_nat n :: uint16) + word_of_nat SizeOfUint16InBytes = word_of_nat (n + 2)"
    by (simp add: SizeOfUint16InBytes_def)
  have b: "(word_of_nat n :: uint16) + word_of_nat SizeOfUint16InBytes + word_of_nat (length k)
             = word_of_nat (n + 2 + length k)"
    by (simp add: SizeOfUint16InBytes_def)
  have c: "(word_of_nat n :: uint16) + word_of_nat SizeOfUint16InBytes + word_of_nat (length k)
             + word_of_nat SizeOfUint32InBytes = word_of_nat (n + 2 + length k + 4)"
    by (simp add: SizeOfUint16InBytes_def SizeOfUint32InBytes_def)
  show "uint (word_of_nat n :: uint16) = int n"
    using b1 by (intro uint_u16) simp
  show "unat ((word_of_nat n :: uint16) + word_of_nat SizeOfUint16InBytes) = n + 2"
    unfolding a using b1 by (intro unat_u16) simp
  show "unat ((word_of_nat n :: uint16) + word_of_nat SizeOfUint16InBytes
               + word_of_nat (length k)) = n + 2 + length k"
    unfolding b using b1 by (intro unat_u16) simp
  show "uint ((word_of_nat n :: uint16) + word_of_nat SizeOfUint16InBytes
               + word_of_nat (length k)) = int (n + 2 + length k)"
    unfolding b using b1 by (intro uint_u16) simp
  show "unat ((word_of_nat n :: uint16) + word_of_nat SizeOfUint16InBytes
               + word_of_nat (length k) + word_of_nat SizeOfUint32InBytes) = n + 2 + length k + 4"
    unfolding c using b1 by (intro unat_u16) simp
  show "(ucast ((word_of_nat n :: uint16) + word_of_nat SizeOfUint16InBytes
               + word_of_nat (length k) + word_of_nat SizeOfUint32InBytes) :: uint32)
           = word_of_nat (n + 2 + length k + 4)"
    unfolding c using b1 by (intro ucast16_32) simp
qed

lemma layout_slices:
  assumes d: "d = pre @ record_bytes k v @ post" and n: "length pre = n"
  shows "slice_from d (int n) = Inr (be16 (word_of_nat (length k)) @ k @ value_bytes v @ post)"
    and "slice d (n + 2) (n + 2 + length k) = Inr k"
    and "slice_from d (int (n + 2 + length k)) = Inr (value_bytes v @ post)"
proof -
  show "slice_from d (int n) = Inr (be16 (word_of_nat (length k)) @ k @ value_bytes v @ post)"
    using n by (simp add: slice_from_nat d record_bytes_eq)
  have "d = (pre @ be16 (word_of_nat (length k))) @ k @ (value_bytes v @ post)"
    by (simp add: d record_bytes_eq)
  then show "slice d (n + 2) (n + 2 + length k) = Inr k"
    using n by (simp only: ) (rule slice_mid, simp_all)
  have "slice_from d (int (n + 2 + length k)) = Inr (drop (n + 2 + length k) d)"
    by (rule slice_from_nat) (simp add: d n [symmetric] record_bytes_eq)
  also have "drop (n + 2 + length k) d = value_bytes v @ post"
    by (simp add: d n [symmetric] record_bytes_eq)
  finally show "slice_from d (int (n + 2 + length k)) = Inr (value_bytes v @ post)" .
qed

lemma load_layout:
  assumes off: "offsets blk ! i = word_of_nat n" and i: "i < length (offsets blk)"
    and d: "data blk = pre @ record_bytes k v @ post" and n: "length pre = n"
    and b1: "n + 2 + length k + 4 < 65536"
    and b2: "case v of None \<Rightarrow> True | Some x \<Rightarrow> length x < 4294967295 - 65536"
  shows "loadAtCurrentOffset \<lparr>block = blk, offsetIndex = i\<rparr> = Inr (Some (entry_of (k, v)))"
proof (cases "value_bytes v = be32 Tombstone")
  have ni: "\<not> length (offsets blk) \<le> i"
    using i by simp
  case True
  then have "entry_of (k, v) = \<lparr>kvd_key = k, valueDel = \<lparr>vd_value = [], isTombstone = True\<rparr>\<rparr>"
    by (auto simp: value_bytes_def entry_of_def split: option.splits if_splits
          dest: arg_cong [where f = length])
  then show ?thesis
    unfolding loadAtCurrentOffset_def Let_def BlockIterator.select_convs
    by (simp only: ni if_False off offset_arith [OF b1] layout_slices [OF d n]
          Uint16_be16 Uint32_be32 sum.case True simp_thms)
next
  have ni: "\<not> length (offsets blk) \<le> i"
    using i by simp
  case False
  then obtain x where v: "v = Some x" and x: "x \<noteq> []"
    by (auto simp: value_bytes_def split: option.splits if_splits)
  with b2 have lx: "length x < 4294967295 - 65536" by simp
  have vb: "value_bytes v = be32 (word_of_nat (length x)) @ x"
    using v x by (simp add: value_bytes_def)
  have nt: "(word_of_nat (length x) :: uint32) \<noteq> Tombstone"
  proof
    assume "(word_of_nat (length x) :: uint32) = Tombstone"
    then have "unat (word_of_nat (length x) :: uint32) = unat Tombstone" by simp
    with lx show False by (simp add: unat_u32 Tombstone_def)
  qed
  have hi: "unat ((word_of_nat (n + 2 + length k + 4) :: uint32) + word_of_nat (length x))
              = n + 2 + length k + 4 + length x"
  proof -
    have "(word_of_nat (n + 2 + length k + 4) :: uint32) + word_of_nat (length x)
            = word_of_nat (n + 2 + length k + 4 + length x)"
      by simp
    then show ?thesis
      using b1 lx by (simp only: ) (rule unat_u32, simp)
  qed
  have "data blk = (pre @ be16 (word_of_nat (length k)) @ k @ be32 (word_of_nat (length x))) @ x @ post"
    by (simp add: d record_bytes_eq vb)
  then have s4: "slice (data blk) (n + 2 + length k + 4) (n + 2 + length k + 4 + length x) = Inr x"
    using n by (simp only: ) (rule slice_mid, simp_all)
  have "entry_of (k, v) = \<lparr>kvd_key = k, valueDel = \<lparr>vd_value = x, isTombstone = False\<rparr>\<rparr>"
    using v x by (simp add: entry_of_def)
  then show ?thesis
    unfolding loadAtCurrentOffset_def Let_def BlockIterator.select_convs
    by (simp only: ni if_False if_True off offset_arith [OF b1] layout_slices [OF d n]
          Uint16_be16 Uint32_be32 sum.case vb append_assoc nt hi s4 simp_thms)
qed

lemma record_at_layout:
  assumes "record_at d off (k, v)"
  shows "\<exists>pre post. d = pre @ record_bytes k v @ post \<and> length pre = unat off"
proof -
  let ?n = "unat off" and ?L = "length (record_bytes k v)"
  from assms have t: "take ?L (drop ?n d) = record_bytes k v"
    by (simp add: record_at_def)
  then have "length (take ?L (drop ?n d)) = ?L" by simp
  then have "?L \<le> length d - ?n" by simp
  moreover have "0 < ?L" by (simp add: length_record_bytes)
  ultimately have n: "?n \<le> length d" by linarith
  have "d = take ?n d @ take ?L (drop ?n d) @ drop ?L (drop ?n d)"
    by (simp only: append_take_drop_id)
  with t have "d = take ?n d @ record_bytes k v @ drop ?L (drop ?n d)"
    by simp
  moreover have "length (take ?n d) = ?n"
    using n by simp
  ultimately show ?thesis by blast
qed

lemma load_record_at:
  assumes i: "i < length (offsets blk)" and r: "record_at (data blk) (offsets blk ! i) r"
  shows "loadAtCurrentOffset \<lparr>block = blk, offsetIndex = i\<rparr> = Inr (Some (entry_of r))"
proof -
  obtain k v where kv: "r = (k, v)" by (cases r)
  from r kv obtain pre post where
    d: "data blk = pre @ record_bytes k v @ post" and n: "length pre = unat (offsets blk ! i)"
    using record_at_layout by blast
  have off: "offsets blk ! i = word_of_nat (unat (offsets blk ! i))"
    by simp
  from r kv have b1: "unat (offsets blk ! i) + 2 + length k + 4 < 65536"
    and b2: "case v of None \<Rightarrow> True | Some x \<Rightarrow> length x < 4294967295 - 65536"
    by (simp_all add: record_at_def)
  show ?thesis
    unfolding kv by (rule load_layout [OF off i d n b1 b2])
qed

lemma key_arith:
  fixes n :: nat and k :: "byte list"
  assumes b: "n + 2 + length k < 65536"
  shows "uint (word_of_nat n :: uint16) = int n"
    and "unat ((word_of_nat n :: uint16) + word_of_nat SizeOfUint16InBytes) = n + 2"
    and "unat ((word_of_nat n :: uint16) + word_of_nat SizeOfUint16InBytes
               + word_of_nat (length k)) = n + 2 + length k"
proof -
  have a: "(word_of_nat n :: uint16) + word_of_nat SizeOfUint16InBytes = word_of_nat (n + 2)"
    by (simp add: SizeOfUint16InBytes_def)
  have c: "(word_of_nat n :: uint16) + word_of_nat SizeOfUint16InBytes + word_of_nat (length k)
             = word_of_nat (n + 2 + length k)"
    by (simp add: SizeOfUint16InBytes_def)
  show "uint (word_of_nat n :: uint16) = int n"
    using b by (intro uint_u16) simp
  show "unat ((word_of_nat n :: uint16) + word_of_nat SizeOfUint16InBytes) = n + 2"
    unfolding a using b by (intro unat_u16) simp
  show "unat ((word_of_nat n :: uint16) + word_of_nat SizeOfUint16InBytes
               + word_of_nat (length k)) = n + 2 + length k"
    unfolding c using b by (intro unat_u16) simp
qed

lemma key_at_layout:
  assumes "key_at d off k"
  shows "\<exists>pre post. d = pre @ be16 (word_of_nat (length k)) @ k @ post \<and> length pre = unat off"
proof -
  let ?n = "unat off" and ?L = "2 + length k"
  from assms have t: "take ?L (drop ?n d) = be16 (word_of_nat (length k)) @ k"
    by (simp add: key_at_def)
  then have "length (take ?L (drop ?n d)) = ?L" by simp
  then have "?L \<le> length d - ?n" by simp
  then have n: "?n \<le> length d" by linarith
  have "d = take ?n d @ take ?L (drop ?n d) @ drop ?L (drop ?n d)"
    by (simp only: append_take_drop_id)
  with t have "d = take ?n d @ be16 (word_of_nat (length k)) @ k @ drop ?L (drop ?n d)"
    by simp
  moreover have "length (take ?n d) = ?n"
    using n by simp
  ultimately show ?thesis by blast
qed

lemma curKey_key_at:
  assumes "key_at d off k"
  shows "curKey d off = Inr k"
proof -
  from assms obtain pre post where
    d: "d = pre @ be16 (word_of_nat (length k)) @ k @ post" and n: "length pre = unat off"
    using key_at_layout by blast
  from assms have b: "unat off + 2 + length k < 65536"
    by (simp add: key_at_def)
  have off: "off = word_of_nat (unat off)"
    by simp
  have "slice_from d (int (unat off)) = Inr (drop (unat off) d)"
    by (rule slice_from_nat) (simp add: d n [symmetric])
  also have "drop (unat off) d = be16 (word_of_nat (length k)) @ k @ post"
    by (simp add: d n [symmetric])
  finally have s1: "slice_from d (int (unat off)) = Inr (be16 (word_of_nat (length k)) @ k @ post)" .
  have "d = (pre @ be16 (word_of_nat (length k))) @ k @ post"
    by (simp add: d)
  then have s2: "slice d (unat off + 2) (unat off + 2 + length k) = Inr k"
    using n by (simp only: ) (rule slice_mid, simp_all)
  have "curKey d (word_of_nat (unat off)) = Inr k"
    unfolding curKey_def Let_def
    by (simp only: key_arith [OF b] s1 s2 Uint16_be16 sum.case)
  with off show ?thesis by simp
qed

lemma block_keys_curKey:
  "block_keys blk ks \<Longrightarrow> map (curKey (data blk)) (offsets blk) = map Inr ks"
  unfolding block_keys_def
  by (induction rule: list_all2_induct) (auto simp: curKey_key_at)

lemma record_at_key_at: "record_at d off r \<Longrightarrow> key_at d off (fst r)"
proof -
  assume r: "record_at d off r"
  obtain k v where kv: "r = (k, v)" by (cases r)
  let ?rb = "record_bytes k v"
  from r kv have t: "take (length ?rb) (drop (unat off) d) = ?rb"
    and b: "unat off + 2 + length k + 4 < 65536"
    by (simp_all add: record_at_def)
  have "take (2 + length k) (drop (unat off) d)
          = take (2 + length k) (take (length ?rb) (drop (unat off) d))"
    by (simp add: length_record_bytes min_def)
  also have "\<dots> = take (2 + length k) ?rb"
    by (simp only: t)
  also have "\<dots> = be16 (word_of_nat (length k)) @ k"
    by (simp add: record_bytes_eq)
  finally show ?thesis
    using b by (simp add: key_at_def kv)
qed

lemma block_holds_block_keys: "block_holds blk rs \<Longrightarrow> block_keys blk (map fst rs)"
  unfolding block_holds_def block_keys_def
  by (induction rule: list_all2_induct) (auto simp: record_at_key_at)

subsection \<open>The iterator on a block that holds records\<close>

lemma NextEntry_end:
  "length (offsets (block b)) \<le> offsetIndex b \<Longrightarrow> NextEntry b = Inr (None, b)"
  by (simp add: NextEntry_def loadAtCurrentOffset_def)

lemma NextEntry_None_iff:
  "(\<exists>b'. NextEntry b = Inr (None, b')) \<longleftrightarrow> length (offsets (block b)) \<le> offsetIndex b"
proof
  assume "\<exists>b'. NextEntry b = Inr (None, b')"
  then have l: "loadAtCurrentOffset b = Inr None"
    by (auto simp: NextEntry_def split: sum.splits option.splits)
  show "length (offsets (block b)) \<le> offsetIndex b"
  proof (rule ccontr)
    assume "\<not> length (offsets (block b)) \<le> offsetIndex b"
    with l show False
      by (auto simp: loadAtCurrentOffset_def Let_def split: sum.splits if_splits)
  qed
next
  assume "length (offsets (block b)) \<le> offsetIndex b"
  then show "\<exists>b'. NextEntry b = Inr (None, b')"
    by (simp add: NextEntry_end)
qed

lemma NextEntry_holds:
  assumes "block_holds blk rs" and "i < length rs"
  shows "NextEntry \<lparr>block = blk, offsetIndex = i\<rparr>
           = Inr (Some (entry_of (rs ! i)), \<lparr>block = blk, offsetIndex = i + 1\<rparr>)"
proof -
  from assms have l: "length (offsets blk) = length rs"
    and "record_at (data blk) (offsets blk ! i) (rs ! i)"
    by (auto simp: block_holds_def dest: list_all2_lengthD list_all2_nthD2)
  then have "loadAtCurrentOffset \<lparr>block = blk, offsetIndex = i\<rparr> = Inr (Some (entry_of (rs ! i)))"
    using assms(2) by (intro load_record_at) simp_all
  then show ?thesis
    by (simp add: NextEntry_def advance_def)
qed

lemma Next_holds:
  assumes h: "block_holds blk rs"
  shows "Next \<lparr>block = blk, offsetIndex = i\<rparr> =
     (case dropWhile is_tombstone_record (drop i rs) of
        [] \<Rightarrow> Inr (None, \<lparr>block = blk, offsetIndex = max i (length rs)\<rparr>)
      | r # rest \<Rightarrow> Inr (Some (live_pair r), \<lparr>block = blk, offsetIndex = length rs - length rest\<rparr>))"
proof (induction "length rs - i" arbitrary: i)
  case 0
  then have i: "length rs \<le> i" by simp
  from h have "length (offsets blk) = length rs"
    by (auto simp: block_holds_def dest: list_all2_lengthD)
  with i have "NextEntry \<lparr>block = blk, offsetIndex = i\<rparr> = Inr (None, \<lparr>block = blk, offsetIndex = i\<rparr>)"
    by (simp add: NextEntry_end)
  with i show ?case
    by (subst Next.simps) (simp add: max_def)
next
  case (Suc n)
  then have i: "i < length rs" by simp
  have ne: "NextEntry \<lparr>block = blk, offsetIndex = i\<rparr>
           = Inr (Some (entry_of (rs ! i)), \<lparr>block = blk, offsetIndex = i + 1\<rparr>)"
    by (rule NextEntry_holds [OF h i])
  have dr: "drop i rs = rs ! i # drop (Suc i) rs"
    using i by (simp add: Cons_nth_drop_Suc)
  show ?case
  proof (cases "is_tombstone_record (rs ! i)")
    case True
    have "Next \<lparr>block = blk, offsetIndex = i\<rparr> = Next \<lparr>block = blk, offsetIndex = i + 1\<rparr>"
      using ne True by (subst Next.simps) (simp add: is_tombstone_record_def)
    also have "\<dots> = (case dropWhile is_tombstone_record (drop (i + 1) rs) of
        [] \<Rightarrow> Inr (None, \<lparr>block = blk, offsetIndex = max (i + 1) (length rs)\<rparr>)
      | r # rest \<Rightarrow> Inr (Some (live_pair r), \<lparr>block = blk, offsetIndex = length rs - length rest\<rparr>))"
      using Suc.hyps(2) by (intro Suc.hyps(1)) simp
    also have "dropWhile is_tombstone_record (drop (i + 1) rs)
                 = dropWhile is_tombstone_record (drop i rs)"
      using True by (simp add: dr)
    also have "max (i + 1) (length rs) = max i (length rs)"
      using i by simp
    finally show ?thesis .
  next
    case False
    have "length (drop (Suc i) rs) = length rs - Suc i" by simp
    then have "length rs - length (drop (Suc i) rs) = i + 1"
      using i by simp
    then show ?thesis
      using ne False by (subst Next.simps) (simp add: dr is_tombstone_record_def live_pair_def)
  qed
qed

lemma seek_loop_keys:
  "map (curKey d) offs = map Inr ks \<Longrightarrow>
   seek_loop d k offs i index =
     Inr (if length (takeWhile (\<lambda>ck. ck < k) ks) < length ks
          then i + length (takeWhile (\<lambda>ck. ck < k) ks) else index)"
proof (induction offs arbitrary: ks i)
  case Nil
  then show ?case by simp
next
  case (Cons off offs)
  then obtain c cs where ks: "ks = c # cs" and c: "curKey d off = Inr c"
    and cs: "map (curKey d) offs = map Inr cs"
    by (cases ks) auto
  show ?case
  proof (cases "k \<le> c")
    case True
    then have "\<not> c < k" by simp
    with True c show ?thesis by (simp add: ks)
  next
    case False
    then have "c < k" by simp
    with False c Cons.IH [OF cs, of "i + 1"] show ?thesis by (simp add: ks)
  qed
qed

lemma seek_keys:
  assumes "map (curKey (data blk)) (offsets blk) = map Inr ks"
  shows "newBlockIteratorFromKey blk k =
           Inr \<lparr>block = blk, offsetIndex = length (takeWhile (\<lambda>ck. ck < k) ks)\<rparr>"
proof -
  from assms have "length (offsets blk) = length ks"
    by (metis length_map)
  moreover have "length (takeWhile (\<lambda>ck. ck < k) ks) \<le> length ks"
    by (rule length_takeWhile_le)
  ultimately show ?thesis
    unfolding newBlockIteratorFromKey_def Let_def seek_loop_keys [OF assms]
    by auto
qed

lemma offsets_from_holds:
  "length pre + length (concat (map (\<lambda>(k, v). record_bytes k v) rs)) < 65536 \<Longrightarrow>
   list_all2 (record_at (pre @ concat (map (\<lambda>(k, v). record_bytes k v) rs) @ post))
     (offsets_from (length pre) rs) rs"
proof (induction rs arbitrary: pre)
  case Nil
  then show ?case by simp
next
  case (Cons r rs)
  obtain k v where r: "r = (k, v)" by (cases r)
  let ?rest = "concat (map (\<lambda>(k, v). record_bytes k v) rs)"
  from Cons.prems r have b: "length pre + length (record_bytes k v) + length ?rest < 65536"
    by simp
  then have u: "unat (word_of_nat (length pre) :: uint16) = length pre"
    by (intro unat_u16) simp
  have "record_at (pre @ record_bytes k v @ ?rest @ post) (word_of_nat (length pre)) (k, v)"
    using b unfolding record_at_def u
    by (auto simp: length_record_bytes split: option.splits)
  moreover have "list_all2 (record_at ((pre @ record_bytes k v) @ ?rest @ post))
     (offsets_from (length (pre @ record_bytes k v)) rs) rs"
    using b by (intro Cons.IH) simp
  ultimately show ?case
    by (simp add: r)
qed

lemma built_block_holds:
  assumes "length (concat (map (\<lambda>(k, v). record_bytes k v) rs)) < 65536"
  shows "block_holds \<lparr>data = concat (map (\<lambda>(k, v). record_bytes k v) rs),
                      offsets = offsets_from 0 rs\<rparr> rs"
  using offsets_from_holds [of "[]" rs "[]"] assms by (simp add: block_holds_def)

lemma add_all_count:
  "add_all b rs = (Inr oks, b') \<Longrightarrow>
   length (bb_offsets b') = length (bb_offsets b) + length (filter (\<lambda>ok. ok) oks)"
proof (induction rs arbitrary: b oks)
  case Nil
  then show ?case by simp
next
  case (Cons r rs)
  obtain k v where r: "r = (k, v)" by (cases r)
  from Cons.prems r obtain ok b1 oks1 where
    a: "add b k v = (Inr ok, b1)" and rest: "add_all b1 rs = (Inr oks1, b')" and oks: "oks = ok # oks1"
    by (auto split: prod.splits sum.splits)
  from a have k: "k \<noteq> []"
    by (auto simp: add_def)
  from a have "length (bb_offsets b1) = length (bb_offsets b) + (if ok then 1 else 0)"
    unfolding add_accept [OF k] by (auto split: if_splits)
  with Cons.IH [OF rest] show ?case
    by (simp add: oks)
qed

lemma add_empty_value: "add b k (Some []) = add b k None"
  by (simp add: add_def Get_opt_def)

lemma add_all_accepted:
  "add_all b rs = (Inr oks, b') \<Longrightarrow> \<forall>ok \<in> set oks. ok \<Longrightarrow>
   b' = b\<lparr>bb_offsets := bb_offsets b @ offsets_from (length (bb_data b)) rs,
          bb_data := bb_data b @ concat (map (\<lambda>(k, v). record_bytes k v) rs)\<rparr>"
proof (induction rs arbitrary: b oks)
  case Nil
  then show ?case by simp
next
  case (Cons r rs)
  obtain k v where r: "r = (k, v)" by (cases r)
  from Cons.prems(1) r obtain ok b1 oks1 where
    a: "add b k v = (Inr ok, b1)" and rest: "add_all b1 rs = (Inr oks1, b')" and oks: "oks = ok # oks1"
    by (auto split: prod.splits sum.splits)
  from a have k: "k \<noteq> []"
    by (auto simp: add_def)
  from Cons.prems(2) oks have ok and all: "\<forall>x \<in> set oks1. x"
    by auto
  with a have b1: "b1 = b\<lparr>bb_offsets := bb_offsets b @ [word_of_nat (length (bb_data b))],
              bb_data := bb_data b @ record_bytes k v\<rparr>"
    unfolding add_accept [OF k] by (auto split: if_splits)
  from Cons.IH [OF rest all] show ?case
    by (simp add: b1 r)
qed

lemma builder_block_holds:
  assumes "add_all (NewBlockBuilder bs) rs = (Inr oks, b)" and "\<forall>ok \<in> set oks. ok"
    and "length (bb_data b) < 65536"
  shows "block_holds (built_block b) rs"
proof -
  from add_all_accepted [OF assms(1,2)]
  have b: "b = \<lparr>bb_offsets = offsets_from 0 rs,
               bb_data = concat (map (\<lambda>(k, v). record_bytes k v) rs), blockSize = bs\<rparr>"
    by (simp add: NewBlockBuilder_def)
  with assms(3) have "length (concat (map (\<lambda>(k, v). record_bytes k v) rs)) < 65536"
    by simp
  from built_block_holds [OF this] show ?thesis
    by (simp add: b built_block_def)
qed

lemma builder_block_keys:
  assumes "add_all (NewBlockBuilder bs) rs = (Inr oks, b)" and "\<forall>ok \<in> set oks. ok"
    and "length (bb_data b) < 65536"
  shows "block_keys (built_block b) (map fst rs)"
  by (rule block_holds_block_keys [OF builder_block_holds [OF assms]])

lemma add_all_kept:
  "add_all b rs = (Inr oks, b') \<Longrightarrow>
   length oks = length rs \<and>
   b' = b\<lparr>bb_offsets := bb_offsets b
                 @ offsets_from (length (bb_data b)) (map fst (filter snd (zip rs oks))),
          bb_data := bb_data b
                 @ concat (map (\<lambda>(k, v). record_bytes k v) (map fst (filter snd (zip rs oks))))\<rparr>"
proof (induction rs arbitrary: b oks)
  case Nil
  then show ?case by simp
next
  case (Cons r rs)
  obtain k v where r: "r = (k, v)" by (cases r)
  from Cons.prems r obtain ok b1 oks1 where
    a: "add b k v = (Inr ok, b1)" and rest: "add_all b1 rs = (Inr oks1, b')" and oks: "oks = ok # oks1"
    by (auto split: prod.splits sum.splits)
  from a have k: "k \<noteq> []"
    by (auto simp: add_def)
  from a have b1: "b1 = (if ok then b\<lparr>bb_offsets := bb_offsets b @ [word_of_nat (length (bb_data b))],
              bb_data := bb_data b @ record_bytes k v\<rparr> else b)"
    unfolding add_accept [OF k] by (auto split: if_splits)
  from Cons.IH [OF rest] show ?case
    by (simp add: b1 r oks)
qed

lemma builder_block_keys_kept:
  assumes "add_all (NewBlockBuilder bs) rs = (Inr oks, b)" and "length (bb_data b) < 65536"
  shows "block_holds (built_block b) (map fst (filter snd (zip rs oks)))"
    and "block_keys (built_block b) (map fst (map fst (filter snd (zip rs oks))))"
proof -
  let ?kept = "map fst (filter snd (zip rs oks))"
  from add_all_kept [OF assms(1)]
  have b: "b = \<lparr>bb_offsets = offsets_from 0 ?kept,
               bb_data = concat (map (\<lambda>(k, v). record_bytes k v) ?kept), blockSize = bs\<rparr>"
    by (simp add: NewBlockBuilder_def)
  with assms(2) have "length (concat (map (\<lambda>(k, v). record_bytes k v) ?kept)) < 65536"
    by simp
  from built_block_holds [OF this] show h: "block_holds (built_block b) ?kept"
    by (simp add: b built_block_def)
  show "block_keys (built_block b) (map fst ?kept)"
    by (rule block_holds_block_keys [OF h])
qed

lemma live_pair_Some: "x \<noteq> [] \<Longrightarrow> live_pair (k, Some x) = \<lparr>kv_key = k, kv_value = x\<rparr>"
  by (simp add: live_pair_def entry_of_def)

lemma is_tombstone_record_iff:
  "is_tombstone_record r \<longleftrightarrow> snd r = None \<or> snd r = Some []"
  by (cases r) (auto simp: is_tombstone_record_def entry_of_def split: option.splits)

lemma tombstone_entry:
  "is_tombstone_record r \<Longrightarrow>
   entry_of r = \<lparr>kvd_key = fst r, valueDel = \<lparr>vd_value = [], isTombstone = True\<rparr>\<rparr>"
  by (cases r) (auto simp: is_tombstone_record_def entry_of_def split: option.splits if_splits)

subsection \<open>The example blocks\<close>

lemma test_block_built:
  "add_all (NewBlockBuilder 1024) test_records =
     (Inr [True, True, True],
      \<lparr>bb_offsets = offsets (test_block), bb_data = data test_block, blockSize = 1024\<rparr>)
   \<and> build \<lparr>bb_offsets = offsets (test_block), bb_data = data test_block, blockSize = 1024\<rparr>
       = Inr test_block"
proof -
  have k: "\<forall>r \<in> set test_records. fst r \<noteq> []"
    by (simp add: test_records_def)
  have "estimatedSize (NewBlockBuilder 1024) + sum_list (map rec_size test_records)
               \<le> blockSize (NewBlockBuilder 1024)"
    by (simp add: estimatedSize_eq NewBlockBuilder_def test_records_def rec_size_def length_record_bytes)
  from add_all_fits [OF k this] show ?thesis
    by (simp add: NewBlockBuilder_def test_block_def build_def isEmpty_def) (simp add: test_records_def)
qed

lemma test_block_block_keys:
  "block_keys test_block
     [[100, 111, 110, 107, 101, 121], [107, 114, 97, 116, 111, 115], [115, 117, 112, 101, 114]]"
proof -
  have "block_holds test_block test_records"
    unfolding test_block_def by (rule built_block_holds) (simp add: test_records_def length_record_bytes)
  from block_holds_block_keys [OF this] show ?thesis
    by (simp add: test_records_def)
qed

lemma tomb_block_built:
  "add_all (NewBlockBuilder 1024) tomb_records =
     (Inr [True, True, True, True],
      \<lparr>bb_offsets = offsets tomb_block, bb_data = data tomb_block, blockSize = 1024\<rparr>)
   \<and> build \<lparr>bb_offsets = offsets tomb_block, bb_data = data tomb_block, blockSize = 1024\<rparr>
       = Inr tomb_block"
proof -
  have k: "\<forall>r \<in> set tomb_records. fst r \<noteq> []"
    by (simp add: tomb_records_def)
  have "estimatedSize (NewBlockBuilder 1024) + sum_list (map rec_size tomb_records)
               \<le> blockSize (NewBlockBuilder 1024)"
    by (simp add: estimatedSize_eq NewBlockBuilder_def tomb_records_def rec_size_def length_record_bytes)
  from add_all_fits [OF k this] show ?thesis
    by (simp add: NewBlockBuilder_def tomb_block_def build_def isEmpty_def) (simp add: tomb_records_def)
qed

lemma tomb_block_holds: "block_holds tomb_block tomb_records"
proof -
  have "block_holds (built_block \<lparr>bb_offsets = offsets tomb_block, bb_data = data tomb_block,
          blockSize = 1024\<rparr>) tomb_records"
    by (rule builder_block_holds [OF tomb_block_built [THEN conjunct1]])
       (simp_all add: tomb_block_def tomb_records_def length_record_bytes)
  then show ?thesis
    by (simp add: built_block_def block_holds_def)
qed

lemma length_long_key: "length long_key = 65536"
  by (simp add: long_key_def)

lemma long_key_record: "record_bytes long_key None = data long_block"
  by (simp add: record_bytes_def value_bytes_def length_long_key long_block_def be16_def be32_def Tombstone_def)

lemma long_key_added:
  "add (NewBlockBuilder 4096) long_key None =
     (Inr True, \<lparr>bb_offsets = [0], bb_data = data long_block, blockSize = 4096\<rparr>)"
proof -
  have "long_key \<noteq> []" by (simp add: long_key_def)
  from add_accept [OF this, of "NewBlockBuilder 4096" None] show ?thesis
    by (simp add: NewBlockBuilder_def long_key_record)
qed

lemma long_block_load:
  "loadAtCurrentOffset \<lparr>block = long_block, offsetIndex = 0\<rparr> =
     Inr (Some \<lparr>kvd_key = [], valueDel = \<lparr>vd_value = [0], isTombstone = False\<rparr>\<rparr>)"
  by (simp add: loadAtCurrentOffset_def long_block_def long_key_def slice_from_def slice_def
      SizeOfUint16InBytes_def SizeOfUint32InBytes_def Tombstone_def)

lemma edge_key_record: "record_bytes edge_key None = data edge_block"
  by (simp add: record_bytes_def value_bytes_def edge_key_def edge_block_def be16_def be32_def
      Tombstone_def)

lemma edge_key_added:
  "add (NewBlockBuilder 4096) edge_key None =
     (Inr True, \<lparr>bb_offsets = [0], bb_data = data edge_block, blockSize = 4096\<rparr>)"
proof -
  have "edge_key \<noteq> []" by (simp add: edge_key_def)
  from add_accept [OF this, of "NewBlockBuilder 4096" None] show ?thesis
    by (simp add: NewBlockBuilder_def edge_key_record)
qed

lemma edge_block_seek:
  "newBlockIteratorFromKey edge_block [1] = Inl SliceBoundsOutOfRange"
  by (simp add: newBlockIteratorFromKey_def curKey_def slice_from_def slice_def edge_block_def
      edge_key_def SizeOfUint16InBytes_def)

lemma edge_block_no_keys: "\<not> block_keys edge_block ks"
proof
  assume "block_keys edge_block ks"
  then have "map (curKey (data edge_block)) (offsets edge_block) = map Inr ks"
    by (rule block_keys_curKey)
  then obtain c where "curKey (data edge_block) 0 = Inr c"
    by (cases ks) (auto simp: edge_block_def)
  then show False
    by (simp add: curKey_def slice_from_def slice_def edge_block_def edge_key_def
        SizeOfUint16InBytes_def)
qed

lemma corrupt_decode: "decodeBytesToBlock [0, 0, 0, 1] = Inr \<lparr>data = [], offsets = [0]\<rparr>"
  by (simp add: decodeBytesToBlock_def decode_offsets.simps slice_from_def slice_to_def
      SizeOfUint16InBytes_def)

lemma corrupt_load:
  "loadAtCurrentOffset \<lparr>block = \<lparr>data = [], offsets = [0]\<rparr>, offsetIndex = 0\<rparr> = Inl IndexOutOfRange"
  by (simp add: loadAtCurrentOffset_def slice_from_def)

lemma corrupt_seek:
  "newBlockIteratorFromKey \<lparr>data = [], offsets = [0]\<rparr> [1] = Inl IndexOutOfRange"
  by (simp add: newBlockIteratorFromKey_def curKey_def slice_from_def)

subsection \<open>Memtable\<close>

lemma live_entries_key:
  "(k, v) \<in> set (live_entries m ks) \<longleftrightarrow> k \<in> set ks \<and> Mapping.lookup (table m) k = Some (Value v)"
  by (auto simp: live_entries_def split: option.splits mem_value.splits)

lemma memtable_iter_delete_test:
  "Iter (Put NewMemtable [97, 98, 99, 51, 51, 51] [118, 51]) = [([97, 98, 99, 51, 51, 51], [118, 51])]
   \<and> Iter (Delete (Put NewMemtable [97, 98, 99, 51, 51, 51] [118, 51]) [97, 98, 99, 51, 51, 51]) = []"
  by (simp add: Iter_def Put_def Delete_def NewMemtable_def live_entries_def)

lemma delete_keeps_others:
  assumes "k' \<noteq> k"
  shows "Get (Delete m k) k' = Get m k'"
    and "(k', v') \<in> set (Iter (Delete m k)) \<longleftrightarrow> (k', v') \<in> set (Iter m)"
proof -
  show "Get (Delete m k) k' = Get m k'"
    using assms by (simp add: Get_def Delete_def)
  have "set (Mapping.ordered_keys (Mapping.update k Deleted (table m)))
          = (if finite (Mapping.keys (table m)) then insert k (Mapping.keys (table m)) else {})"
    by (auto simp: Mapping.ordered_keys_def simp del: sorted_list_of_set_insert_remove)
  then show "(k', v') \<in> set (Iter (Delete m k)) \<longleftrightarrow> (k', v') \<in> set (Iter m)"
    using assms
    by (auto simp: Iter_def Delete_def live_entries_key Mapping.ordered_keys_def
        Mapping.lookup_update_neq split: if_splits)
qed

section \<open>The claims\<close>

subsection \<open>C1: decoding an encoded block\<close>

text \<open>
  C1 states that decoding the encoding of a block built by a \<^verbatim>\<open>BlockBuilder\<close> that
  accepted at least one record gives back its data and offsets. \<^verbatim>\<open>encode\<close> writes the
  number of offsets as \<^verbatim>\<open>uint16(len(b.offsets))\<close>, so this fails for a builder that
  accepted 65536 records: the count is written as 0, and the decoder returns no
  offsets and takes the offset table for data. The builder \<open>big_builder\<close> accepts all
  of the 65536 records it is offered, \<^verbatim>\<open>build\<close> succeeds, and the round trip does
  not return the block.
\<close>

theorem roundtrip_counterexample:
  "fst (add_all (NewBlockBuilder 1048576) many_records) = Inr (replicate 65536 True)
   \<and> build big_builder = Inr big_block
   \<and> decodeBytesToBlock (encode big_block) \<noteq> Inr big_block"
proof -
  have "build big_builder = Inr big_block"
    using big_block_length by (auto simp: build_def isEmpty_def big_block_def)
  moreover have "decodeBytesToBlock (encode big_block) \<noteq> Inr big_block"
    using decodeBytesToBlock_count [of "encode big_block" big_block] big_block_length by auto
  ultimately show ?thesis
    by (simp add: many_records_accepted)
qed

text \<open>
  C1, as amended: for every block with at most 65535 offsets, and so for every block
  built by a \<^verbatim>\<open>BlockBuilder\<close> that accepted between 1 and 65535 records, decoding
  the encoded block returns, without a panic, a block with the same data and the same
  offsets; for a block with more offsets it does not.
\<close>

theorem decode_encode_roundtrip:
  "decodeBytesToBlock (encode b) = Inr b \<longleftrightarrow> length (offsets b) < 65536"
proof
  assume "decodeBytesToBlock (encode b) = Inr b"
  then show "length (offsets b) < 65536" by (rule decodeBytesToBlock_count)
next
  assume "length (offsets b) < 65536"
  then show "decodeBytesToBlock (encode b) = Inr b"
    by (simp add: decode_encode)
qed

theorem decode_encode_roundtrip_witness:
  "length (offsets \<lparr>data = [0, 2, 1, 2, 0, 0, 0, 1, 3], offsets = [0]\<rparr>) < 65536
   \<and> encode \<lparr>data = [0, 2, 1, 2, 0, 0, 0, 1, 3], offsets = [0]\<rparr>
       = [0, 2, 1, 2, 0, 0, 0, 1, 3, 0, 0, 0, 1]
   \<and> decodeBytesToBlock [0, 2, 1, 2, 0, 0, 0, 1, 3, 0, 0, 0, 1]
       = Inr \<lparr>data = [0, 2, 1, 2, 0, 0, 0, 1, 3], offsets = [0]\<rparr>"
proof -
  have e: "encode \<lparr>data = [0, 2, 1, 2, 0, 0, 0, 1, 3], offsets = [0]\<rparr>
             = [0, 2, 1, 2, 0, 0, 0, 1, 3, 0, 0, 0, 1]"
    by (simp add: encode_def AppendUint16_def)
  from decode_encode_roundtrip [of "\<lparr>data = [0, 2, 1, 2, 0, 0, 0, 1, 3], offsets = [0]\<rparr>"]
  show ?thesis
    unfolding e by simp
qed

subsection \<open>C2: the size budget of \<^verbatim>\<open>add\<close>\<close>

text \<open>
  C2: for a non-empty key, \<^verbatim>\<open>add\<close> returns \<open>false\<close> and leaves the builder as it
  was when the builder holds at least one record and the projected encoded size exceeds
  \<open>blockSize\<close>; otherwise, and so always on an empty builder, it appends one offset and
  the bytes of the record and returns \<open>true\<close>. The projected size is the estimated size
  of the builder after the record is appended.
\<close>

theorem add_budget:
  assumes "key \<noteq> []"
  shows "add b key v =
     (if \<not> isEmpty b \<and> blockSize b < projected_size b key v
      then (Inr False, b)
      else (Inr True,
            b\<lparr>bb_offsets := bb_offsets b @ [word_of_nat (length (bb_data b))],
              bb_data := bb_data b @ record_bytes key v\<rparr>))
   \<and> (isEmpty b \<longrightarrow> fst (add b key v) = Inr True)
   \<and> (fst (add b key v) = Inr True \<longrightarrow> estimatedSize (snd (add b key v)) = projected_size b key v)"
  unfolding add_accept [OF assms]
  by (auto simp: isEmpty_def projected_size_def estimatedSize_eq length_record_bytes)

theorem add_budget_witness:
  "[7 :: byte] \<noteq> []
   \<and> add (NewBlockBuilder 10) [1, 2] (Some [3]) =
       (Inr True, \<lparr>bb_offsets = [0], bb_data = [0, 2, 1, 2, 0, 0, 0, 1, 3], blockSize = 10\<rparr>)
   \<and> add \<lparr>bb_offsets = [0], bb_data = [0, 2, 1, 2, 0, 0, 0, 1, 3], blockSize = 10\<rparr> [7] None =
       (Inr False, \<lparr>bb_offsets = [0], bb_data = [0, 2, 1, 2, 0, 0, 0, 1, 3], blockSize = 10\<rparr>)"
  using add_budget [of "[1, 2]" "NewBlockBuilder 10" "Some [3]"]
    add_budget [of "[7]" "\<lparr>bb_offsets = [0], bb_data = [0, 2, 1, 2, 0, 0, 0, 1, 3], blockSize = 10\<rparr>" None]
  by (simp add: isEmpty_def projected_size_def NewBlockBuilder_def record_bytes_def value_bytes_def be16_def be32_def)

subsection \<open>C3: seeking a key\<close>

text \<open>
  C3 is stated for every block. \<^verbatim>\<open>newBlockIteratorFromKey\<close> reads the key at each
  offset it passes without checking that the offset lies inside the data, so on a block
  with a dangling offset it panics and returns no iterator. Such a block is what
  \<^verbatim>\<open>decodeBytesToBlock\<close> returns for the four bytes \<open>00 00 00 01\<close>: one offset, 0,
  and no data. The end of the key is computed as \<^verbatim>\<open>off+keyLen\<close> on \<^verbatim>\<open>uint16\<close>, so
  the call also panics on the block that a builder holds after accepting the
  65534-byte key \<open>edge_key\<close>: the sum wraps around to 0, below the start of the key.
\<close>

theorem seek_counterexample:
  "decodeBytesToBlock [0, 0, 0, 1] = Inr \<lparr>data = [], offsets = [0]\<rparr>
   \<and> newBlockIteratorFromKey \<lparr>data = [], offsets = [0]\<rparr> [1] = Inl IndexOutOfRange
   \<and> add (NewBlockBuilder 4096) edge_key None =
       (Inr True, \<lparr>bb_offsets = [0], bb_data = data edge_block, blockSize = 4096\<rparr>)
   \<and> build \<lparr>bb_offsets = [0], bb_data = data edge_block, blockSize = 4096\<rparr> = Inr edge_block
   \<and> newBlockIteratorFromKey edge_block [1] = Inl SliceBoundsOutOfRange"
proof -
  have "build \<lparr>bb_offsets = [0], bb_data = data edge_block, blockSize = 4096\<rparr> = Inr edge_block"
    by (simp add: build_def isEmpty_def edge_block_def)
  with corrupt_decode corrupt_seek edge_key_added edge_block_seek show ?thesis
    by simp
qed

text \<open>
  C3, as amended: for every block in which every offset \<open>o\<close> points at a stored key
  inside the data, that is at the two-byte big-endian length \<open>L\<close> of the key followed
  by its \<open>L\<close> bytes, with \<open>o + 2 + L < 65536\<close> (\<open>block_keys\<close>, with \<open>ks\<close> the stored
  keys in the order of the offsets), and every target key \<open>k\<close>,
  \<^verbatim>\<open>newBlockIteratorFromKey\<close> returns an iterator over the block positioned at the
  first index whose stored key is \<open>\<ge> k\<close> in the lexicographic order of bytes: every
  key before the position is \<open>< k\<close>, and the key at the position, if there is one, is
  \<open>\<ge> k\<close>. If \<open>k\<close> is greater than every stored key, the position is the number of
  offsets and \<^verbatim>\<open>NextEntry\<close> and \<^verbatim>\<open>Next\<close> return none at once; if \<open>k\<close> is at or
  below every stored key, the position is 0. The hypothesis is about the bytes of the
  block, not about what the seek reads: it holds of every block that holds records
  (lemma \<open>block_holds_block_keys\<close>), so of every block built by a \<^verbatim>\<open>BlockBuilder\<close>
  that holds less than 65536 bytes of data, with \<open>ks\<close> the keys of the records that the
  builder accepted (lemma \<open>builder_block_keys_kept\<close>), and it
  fails for the two blocks above (for \<open>edge_block\<close>, where \<open>0 + 2 + 65534 = 65536\<close>,
  lemma \<open>edge_block_no_keys\<close>). Under it every slice expression of the seek has its
  bounds inside the length of the data, where a slice's capacity plays no part.
\<close>

theorem seek_first_key_ge:
  assumes "block_keys blk ks"
  shows "\<exists>i. newBlockIteratorFromKey blk k = Inr \<lparr>block = blk, offsetIndex = i\<rparr>
     \<and> i \<le> length (offsets blk)
     \<and> (\<forall>j<i. ks ! j < k)
     \<and> (i < length (offsets blk) \<longrightarrow> k \<le> ks ! i)
     \<and> ((\<forall>ck\<in>set ks. ck < k) \<longrightarrow>
          i = length (offsets blk)
          \<and> NextEntry \<lparr>block = blk, offsetIndex = i\<rparr> = Inr (None, \<lparr>block = blk, offsetIndex = i\<rparr>)
          \<and> Next \<lparr>block = blk, offsetIndex = i\<rparr> = Inr (None, \<lparr>block = blk, offsetIndex = i\<rparr>))
     \<and> ((\<forall>ck\<in>set ks. k \<le> ck) \<longrightarrow> i = 0)"
proof -
  let ?i = "length (takeWhile (\<lambda>ck. ck < k) ks)"
  have m: "map (curKey (data blk)) (offsets blk) = map Inr ks"
    by (rule block_keys_curKey [OF assms])
  from assms have l: "length (offsets blk) = length ks"
    by (auto simp: block_keys_def dest: list_all2_lengthD)
  have 1: "newBlockIteratorFromKey blk k = Inr \<lparr>block = blk, offsetIndex = ?i\<rparr>"
    by (rule seek_keys [OF m])
  have 2: "?i \<le> length (offsets blk)"
    unfolding l by (rule length_takeWhile_le)
  have 3: "\<forall>j<?i. ks ! j < k"
  proof (intro allI impI)
    fix j assume j: "j < ?i"
    then have "takeWhile (\<lambda>ck. ck < k) ks ! j \<in> set (takeWhile (\<lambda>ck. ck < k) ks)"
      by (rule nth_mem)
    then have "takeWhile (\<lambda>ck. ck < k) ks ! j < k"
      by (rule set_takeWhileD [THEN conjunct2])
    with j show "ks ! j < k"
      by (simp add: takeWhile_nth)
  qed
  have 4: "?i < length (offsets blk) \<longrightarrow> k \<le> ks ! ?i"
    unfolding l using nth_length_takeWhile [of "\<lambda>ck. ck < k" ks] by auto
  have 5: "?i = length (offsets blk)" if "\<forall>ck\<in>set ks. ck < k"
    using that l by (simp add: takeWhile_eq_all_conv [THEN iffD2])
  have 6: "NextEntry \<lparr>block = blk, offsetIndex = length (offsets blk)\<rparr>
             = Inr (None, \<lparr>block = blk, offsetIndex = length (offsets blk)\<rparr>)"
    by (simp add: NextEntry_end)
  then have 7: "Next \<lparr>block = blk, offsetIndex = length (offsets blk)\<rparr>
             = Inr (None, \<lparr>block = blk, offsetIndex = length (offsets blk)\<rparr>)"
    by (subst Next.simps) simp
  have 8: "?i = 0" if "\<forall>ck\<in>set ks. k \<le> ck"
  proof (cases ks)
    case Nil
    then show ?thesis by simp
  next
    case (Cons c cs)
    with that have "\<not> c < k" by auto
    with Cons show ?thesis by simp
  qed
  from 1 2 3 4 5 6 7 8 show ?thesis
    by (intro exI [of _ ?i]) auto
qed

theorem seek_first_key_ge_witness:
  "add_all (NewBlockBuilder 1024) test_records =
     (Inr [True, True, True],
      \<lparr>bb_offsets = offsets (test_block), bb_data = data test_block, blockSize = 1024\<rparr>)
   \<and> build \<lparr>bb_offsets = offsets (test_block), bb_data = data test_block, blockSize = 1024\<rparr>
       = Inr test_block
   \<and> block_keys test_block
       [[100, 111, 110, 107, 101, 121], [107, 114, 97, 116, 111, 115], [115, 117, 112, 101, 114]]
   \<and> newBlockIteratorFromKey test_block [107, 97] = Inr \<lparr>block = test_block, offsetIndex = 1\<rparr>"
proof -
  let ?ks = "[[100, 111, 110, 107, 101, 121], [107, 114, 97, 116, 111, 115], [115, 117, 112, 101, 114]] :: byte list list"
  have h: "block_keys test_block ?ks"
    by (rule test_block_block_keys)
  from seek_first_key_ge [OF h, of "[107, 97]"] obtain i where
    r: "newBlockIteratorFromKey test_block [107, 97] = Inr \<lparr>block = test_block, offsetIndex = i\<rparr>"
    and le: "i \<le> length (offsets test_block)"
    and lo: "\<forall>j<i. ?ks ! j < [107, 97]"
    and hi: "i < length (offsets test_block) \<longrightarrow> [107, 97] \<le> ?ks ! i"
    by blast
  have l: "length (offsets test_block) = 3"
    by (simp add: test_block_def test_records_def)
  have "i \<noteq> 0"
  proof
    assume "i = 0"
    with hi l have "[107, 97] \<le> ([100, 111, 110, 107, 101, 121] :: byte list)" by simp
    then show False by simp
  qed
  moreover have "\<not> 1 < i"
  proof
    assume "1 < i"
    with lo have "([107, 114, 97, 116, 111, 115] :: byte list) < [107, 97]" by fastforce
    then show False by simp
  qed
  ultimately have "i = 1" by simp
  with r h test_block_built show ?thesis by simp
qed

subsection \<open>C4: \<^verbatim>\<open>NextEntry\<close> and \<^verbatim>\<open>Next\<close>\<close>

text \<open>
  C4 is stated for every block and every position. The iterator trusts the offsets
  and the 16-bit length fields. On the block with a dangling offset that
  \<^verbatim>\<open>decodeBytesToBlock\<close> returns for \<open>00 00 00 01\<close>, \<^verbatim>\<open>NextEntry\<close> at position 0,
  which has not reached the offset count, returns neither a record nor none: it
  panics, and so does \<^verbatim>\<open>Next\<close>. On the block that a builder holds after accepting
  the 65536-byte key \<open>long_key\<close> with no value, the key length is stored as 0, and
  the record that was added as a tombstone comes back from \<^verbatim>\<open>NextEntry\<close> with an
  empty key, the value \<open>00\<close> and \<open>isTombstone\<close> false; \<^verbatim>\<open>Next\<close> yields it as a live
  pair.
\<close>

theorem iterator_counterexample:
  "decodeBytesToBlock [0, 0, 0, 1] = Inr \<lparr>data = [], offsets = [0]\<rparr>
   \<and> NextEntry \<lparr>block = \<lparr>data = [], offsets = [0]\<rparr>, offsetIndex = 0\<rparr> = Inl IndexOutOfRange
   \<and> Next \<lparr>block = \<lparr>data = [], offsets = [0]\<rparr>, offsetIndex = 0\<rparr> = Inl IndexOutOfRange
   \<and> add (NewBlockBuilder 4096) long_key None =
       (Inr True, \<lparr>bb_offsets = [0], bb_data = data long_block, blockSize = 4096\<rparr>)
   \<and> build \<lparr>bb_offsets = [0], bb_data = data long_block, blockSize = 4096\<rparr> = Inr long_block
   \<and> NextEntry \<lparr>block = long_block, offsetIndex = 0\<rparr> =
       Inr (Some \<lparr>kvd_key = [], valueDel = \<lparr>vd_value = [0], isTombstone = False\<rparr>\<rparr>,
            \<lparr>block = long_block, offsetIndex = 1\<rparr>)
   \<and> Next \<lparr>block = long_block, offsetIndex = 0\<rparr> =
       Inr (Some \<lparr>kv_key = [], kv_value = [0]\<rparr>, \<lparr>block = long_block, offsetIndex = 1\<rparr>)"
proof -
  have 1: "NextEntry \<lparr>block = \<lparr>data = [], offsets = [0]\<rparr>, offsetIndex = 0\<rparr> = Inl IndexOutOfRange"
    by (simp add: NextEntry_def corrupt_load)
  then have 2: "Next \<lparr>block = \<lparr>data = [], offsets = [0]\<rparr>, offsetIndex = 0\<rparr> = Inl IndexOutOfRange"
    by (subst Next.simps) simp
  have 3: "build \<lparr>bb_offsets = [0], bb_data = data long_block, blockSize = 4096\<rparr> = Inr long_block"
    by (simp add: build_def isEmpty_def long_block_def)
  have 4: "NextEntry \<lparr>block = long_block, offsetIndex = 0\<rparr> =
       Inr (Some \<lparr>kvd_key = [], valueDel = \<lparr>vd_value = [0], isTombstone = False\<rparr>\<rparr>,
            \<lparr>block = long_block, offsetIndex = 1\<rparr>)"
    by (simp add: NextEntry_def long_block_load advance_def)
  then have 5: "Next \<lparr>block = long_block, offsetIndex = 0\<rparr> =
       Inr (Some \<lparr>kv_key = [], kv_value = [0]\<rparr>, \<lparr>block = long_block, offsetIndex = 1\<rparr>)"
    by (subst Next.simps) simp
  from corrupt_decode 1 2 long_key_added 3 4 5 show ?thesis by simp
qed

text \<open>
  C4, as amended. For every iterator, \<^verbatim>\<open>NextEntry\<close> returns none exactly when the
  position has reached the offset count. For every block whose offsets point, in
  order, at the encoded records \<open>rs\<close>, each with its header ending below position 65536
  (\<open>block_holds\<close>; by lemma \<open>builder_block_holds\<close> this is every block built by a
  \<^verbatim>\<open>BlockBuilder\<close> that accepted the records \<open>rs\<close> and holds less than 65536 bytes of
  data), and every position \<open>i\<close>: \<^verbatim>\<open>NextEntry\<close> returns the record at \<open>i\<close> and moves
  to \<open>i + 1\<close>, or none when \<open>i\<close> has reached the offset count; a record added with no
  value or with an empty value is returned with \<open>isTombstone\<close> true and an empty value;
  \<^verbatim>\<open>Next\<close> skips the tombstones from \<open>i\<close> on and returns the first live record as a
  (key, value) pair, moving behind it, and returns none when there is no live record
  left, in particular when all remaining records are tombstones.
\<close>

theorem iterator_entries:
  "((\<exists>it'. NextEntry it = Inr (None, it')) \<longleftrightarrow> length (offsets (block it)) \<le> offsetIndex it)
   \<and> (block_holds blk rs \<longrightarrow>
        NextEntry \<lparr>block = blk, offsetIndex = i\<rparr> =
          (if i < length (offsets blk)
           then Inr (Some (entry_of (rs ! i)), \<lparr>block = blk, offsetIndex = i + 1\<rparr>)
           else Inr (None, \<lparr>block = blk, offsetIndex = i\<rparr>))
        \<and> (\<forall>r \<in> set rs. is_tombstone_record r \<longrightarrow>
              entry_of r = \<lparr>kvd_key = fst r, valueDel = \<lparr>vd_value = [], isTombstone = True\<rparr>\<rparr>)
        \<and> Next \<lparr>block = blk, offsetIndex = i\<rparr> =
          (case dropWhile is_tombstone_record (drop i rs) of
             [] \<Rightarrow> Inr (None, \<lparr>block = blk, offsetIndex = max i (length rs)\<rparr>)
           | r # rest \<Rightarrow>
               Inr (Some (live_pair r), \<lparr>block = blk, offsetIndex = length rs - length rest\<rparr>))
        \<and> (\<forall>kv it'. Next \<lparr>block = blk, offsetIndex = i\<rparr> = Inr (Some kv, it') \<longrightarrow>
              (\<exists>k x. (k, Some x) \<in> set (drop i rs) \<and> x \<noteq> [] \<and> kv = \<lparr>kv_key = k, kv_value = x\<rparr>))
        \<and> ((\<forall>r \<in> set (drop i rs). is_tombstone_record r) \<longrightarrow>
              Next \<lparr>block = blk, offsetIndex = i\<rparr>
                = Inr (None, \<lparr>block = blk, offsetIndex = max i (length rs)\<rparr>)))"
proof (intro conjI impI)
  show "(\<exists>it'. NextEntry it = Inr (None, it')) \<longleftrightarrow> length (offsets (block it)) \<le> offsetIndex it"
    by (rule NextEntry_None_iff)
next
  assume h: "block_holds blk rs"
  then have l: "length (offsets blk) = length rs"
    by (auto simp: block_holds_def dest: list_all2_lengthD)
  show "NextEntry \<lparr>block = blk, offsetIndex = i\<rparr> =
          (if i < length (offsets blk)
           then Inr (Some (entry_of (rs ! i)), \<lparr>block = blk, offsetIndex = i + 1\<rparr>)
           else Inr (None, \<lparr>block = blk, offsetIndex = i\<rparr>))"
    using NextEntry_holds [OF h, of i] l by (simp add: NextEntry_end)
  show "\<forall>r \<in> set rs. is_tombstone_record r \<longrightarrow>
          entry_of r = \<lparr>kvd_key = fst r, valueDel = \<lparr>vd_value = [], isTombstone = True\<rparr>\<rparr>"
    by (simp add: tombstone_entry)
  show n: "Next \<lparr>block = blk, offsetIndex = i\<rparr> =
          (case dropWhile is_tombstone_record (drop i rs) of
             [] \<Rightarrow> Inr (None, \<lparr>block = blk, offsetIndex = max i (length rs)\<rparr>)
           | r # rest \<Rightarrow>
               Inr (Some (live_pair r), \<lparr>block = blk, offsetIndex = length rs - length rest\<rparr>))"
    by (rule Next_holds [OF h])
  show "\<forall>kv it'. Next \<lparr>block = blk, offsetIndex = i\<rparr> = Inr (Some kv, it') \<longrightarrow>
          (\<exists>k x. (k, Some x) \<in> set (drop i rs) \<and> x \<noteq> [] \<and> kv = \<lparr>kv_key = k, kv_value = x\<rparr>)"
  proof (intro allI impI)
    fix kv it'
    assume "Next \<lparr>block = blk, offsetIndex = i\<rparr> = Inr (Some kv, it')"
    with n obtain r rest where d: "dropWhile is_tombstone_record (drop i rs) = r # rest"
      and kv: "kv = live_pair r"
      by (auto split: list.splits)
    from d have "\<not> is_tombstone_record r"
      using hd_dropWhile [of is_tombstone_record "drop i rs"] by simp
    then obtain k x where r: "r = (k, Some x)" and x: "x \<noteq> []"
      by (cases r) (auto simp: is_tombstone_record_iff)
    from d have "r \<in> set (drop i rs)"
      by (metis list.set_intros(1) set_dropWhileD)
    with r x kv show "\<exists>k x. (k, Some x) \<in> set (drop i rs) \<and> x \<noteq> [] \<and> kv = \<lparr>kv_key = k, kv_value = x\<rparr>"
      by (auto simp: live_pair_Some)
  qed
next
  assume h: "block_holds blk rs" and t: "\<forall>r \<in> set (drop i rs). is_tombstone_record r"
  then have d: "dropWhile is_tombstone_record (drop i rs) = []"
    by simp
  show "Next \<lparr>block = blk, offsetIndex = i\<rparr>
                = Inr (None, \<lparr>block = blk, offsetIndex = max i (length rs)\<rparr>)"
    unfolding Next_holds [OF h] d by simp
qed

theorem iterator_entries_witness:
  "add_all (NewBlockBuilder 1024) tomb_records =
     (Inr [True, True, True, True],
      \<lparr>bb_offsets = offsets tomb_block, bb_data = data tomb_block, blockSize = 1024\<rparr>)
   \<and> build \<lparr>bb_offsets = offsets tomb_block, bb_data = data tomb_block, blockSize = 1024\<rparr>
       = Inr tomb_block
   \<and> block_holds tomb_block tomb_records
   \<and> NextEntry \<lparr>block = tomb_block, offsetIndex = 1\<rparr> =
       Inr (Some \<lparr>kvd_key = [1, 5], valueDel = \<lparr>vd_value = [], isTombstone = True\<rparr>\<rparr>,
            \<lparr>block = tomb_block, offsetIndex = 2\<rparr>)
   \<and> Next \<lparr>block = tomb_block, offsetIndex = 1\<rparr> =
       Inr (Some \<lparr>kv_key = [3, 0], kv_value = [7]\<rparr>, \<lparr>block = tomb_block, offsetIndex = 4\<rparr>)
   \<and> NextEntry \<lparr>block = tomb_block, offsetIndex = 4\<rparr> =
       Inr (None, \<lparr>block = tomb_block, offsetIndex = 4\<rparr>)"
proof -
  have l: "length (offsets tomb_block) = 4"
    by (simp add: tomb_block_def tomb_records_def)
  from iterator_entries [of _ tomb_block tomb_records 1] tomb_block_holds
  have 1: "NextEntry \<lparr>block = tomb_block, offsetIndex = 1\<rparr> =
       Inr (Some \<lparr>kvd_key = [1, 5], valueDel = \<lparr>vd_value = [], isTombstone = True\<rparr>\<rparr>,
            \<lparr>block = tomb_block, offsetIndex = 2\<rparr>)"
    and 2: "Next \<lparr>block = tomb_block, offsetIndex = 1\<rparr> =
       Inr (Some \<lparr>kv_key = [3, 0], kv_value = [7]\<rparr>, \<lparr>block = tomb_block, offsetIndex = 4\<rparr>)"
    by (simp_all add: l tomb_records_def entry_of_def is_tombstone_record_def live_pair_def)
  from iterator_entries [of _ tomb_block tomb_records 4] tomb_block_holds
  have 3: "NextEntry \<lparr>block = tomb_block, offsetIndex = 4\<rparr> =
       Inr (None, \<lparr>block = tomb_block, offsetIndex = 4\<rparr>)"
    by (simp add: l)
  from 1 2 3 tomb_block_holds tomb_block_built show ?thesis by simp
qed

subsection \<open>C5: \<^verbatim>\<open>build\<close> and the empty builder\<close>

text \<open>
  C5: \<^verbatim>\<open>build\<close> returns \<^verbatim>\<open>EmptyBlock\<close> exactly when the builder holds no offset, and
  otherwise a block with the data and the offsets of the builder. A builder that
  started empty holds no offset exactly when none of the calls of \<^verbatim>\<open>add\<close> made on
  it returned \<open>true\<close>.
\<close>

theorem build_empty_iff:
  "(build b = Inl EmptyBlock \<longleftrightarrow> isEmpty b)
   \<and> (\<not> isEmpty b \<longrightarrow> build b = Inr \<lparr>data = bb_data b, offsets = bb_offsets b\<rparr>)
   \<and> (\<forall>bs rs oks. add_all (NewBlockBuilder bs) rs = (Inr oks, b) \<longrightarrow>
         (isEmpty b \<longleftrightarrow> True \<notin> set oks))"
proof -
  have "isEmpty b \<longleftrightarrow> True \<notin> set oks" if "add_all (NewBlockBuilder bs) rs = (Inr oks, b)" for bs rs oks
  proof -
    from add_all_count [OF that] have "length (bb_offsets b) = length (filter (\<lambda>ok. ok) oks)"
      by (simp add: NewBlockBuilder_def)
    then show ?thesis
      by (auto simp: isEmpty_def filter_empty_conv)
  qed
  then show ?thesis
    by (auto simp: build_def)
qed

theorem build_empty_iff_witness:
  "build (NewBlockBuilder 4096) = Inl EmptyBlock
   \<and> add_all (NewBlockBuilder 10) [([1, 2], Some [3]), ([7], None)] =
       (Inr [True, False], \<lparr>bb_offsets = [0], bb_data = [0, 2, 1, 2, 0, 0, 0, 1, 3], blockSize = 10\<rparr>)
   \<and> build \<lparr>bb_offsets = [0], bb_data = [0, 2, 1, 2, 0, 0, 0, 1, 3], blockSize = 10\<rparr>
       = Inr \<lparr>data = [0, 2, 1, 2, 0, 0, 0, 1, 3], offsets = [0]\<rparr>"
proof -
  have e: "isEmpty (NewBlockBuilder 4096)"
    by (simp add: isEmpty_def NewBlockBuilder_def)
  have r: "add_all (NewBlockBuilder 10) [([1, 2], Some [3]), ([7], None)] =
       (Inr [True, False], \<lparr>bb_offsets = [0], bb_data = [0, 2, 1, 2, 0, 0, 0, 1, 3], blockSize = 10\<rparr>)"
    by (simp add: add_accept NewBlockBuilder_def record_bytes_def value_bytes_def be16_def be32_def)
  from build_empty_iff [of "NewBlockBuilder 4096"] e
    build_empty_iff [of "\<lparr>bb_offsets = [0], bb_data = [0, 2, 1, 2, 0, 0, 0, 1, 3], blockSize = 10\<rparr>"] r
  show ?thesis
    by (auto simp: isEmpty_def)
qed

subsection \<open>C6: the empty key\<close>

text \<open>
  C6: for every builder and every optional value, \<^verbatim>\<open>add\<close> with an empty key panics
  with the message of the source, and the builder is as it was before the call.
\<close>

theorem add_empty_key_panics:
  "add b [] v = (Inl (Panic ''key must not be empty''), b)"
  by (simp add: add_def)

subsection \<open>C7: a deleted key in the memtable\<close>

text \<open>
  C7: after \<^verbatim>\<open>Put(k, v)\<close> and then \<^verbatim>\<open>Delete(k)\<close> on any memtable, \<^verbatim>\<open>Get(k)\<close> returns
  a present entry that is a tombstone, and neither \<^verbatim>\<open>Iter()\<close> nor \<^verbatim>\<open>RangeFrom\<close>, from
  any start key, yields \<open>k\<close>. The memtable is the model written from the spec above.
\<close>

theorem delete_shadows:
  "Get (Delete (Put m k v) k) k = Some Deleted
   \<and> k \<notin> fst ` set (Iter (Delete (Put m k v) k))
   \<and> k \<notin> fst ` set (RangeFrom (Delete (Put m k v) k) start)"
  by (auto simp: Get_def Delete_def Put_def Iter_def RangeFrom_def live_entries_key)

subsection \<open>C8: decoding less than two bytes\<close>

text \<open>
  C8: on a byte slice shorter than two bytes \<^verbatim>\<open>decodeBytesToBlock\<close> panics in its
  first slice expression, \<^verbatim>\<open>bytes[len(bytes)-2:]\<close>, whose lower bound is negative;
  it returns neither a block nor an error value.
\<close>

theorem decode_short_panics:
  "length bytes < 2 \<Longrightarrow> decodeBytesToBlock bytes = Inl SliceBoundsOutOfRange"
  by (simp add: decodeBytesToBlock_def slice_from_def SizeOfUint16InBytes_def)

theorem decode_short_panics_witness:
  "length [7 :: byte] < 2 \<and> decodeBytesToBlock [7] = Inl SliceBoundsOutOfRange
   \<and> length ([] :: byte list) < 2 \<and> decodeBytesToBlock [] = Inl SliceBoundsOutOfRange"
  using decode_short_panics [of "[7]"] decode_short_panics [of "[]"] by simp

subsection \<open>C9: a present, empty value\<close>

text \<open>
  C9 states, for every non-empty key, that a present but empty value is added as an
  absent one is and that it therefore decodes as a tombstone. The first part holds for
  every key; the second fails where the 16-bit fields of the format are too small. For
  the 65536-byte key \<open>long_key\<close>, added with a present, empty value to an empty
  builder, the key length is stored as 0; the record is decoded with an empty key, the
  value \<open>00\<close> and \<open>isTombstone\<close> false, and \<^verbatim>\<open>Next\<close> yields it instead of skipping it.
\<close>

theorem empty_value_counterexample:
  "add (NewBlockBuilder 4096) long_key (Some []) =
       (Inr True, \<lparr>bb_offsets = [0], bb_data = data long_block, blockSize = 4096\<rparr>)
   \<and> build \<lparr>bb_offsets = [0], bb_data = data long_block, blockSize = 4096\<rparr> = Inr long_block
   \<and> NextEntry \<lparr>block = long_block, offsetIndex = 0\<rparr> =
       Inr (Some \<lparr>kvd_key = [], valueDel = \<lparr>vd_value = [0], isTombstone = False\<rparr>\<rparr>,
            \<lparr>block = long_block, offsetIndex = 1\<rparr>)
   \<and> Next \<lparr>block = long_block, offsetIndex = 0\<rparr> =
       Inr (Some \<lparr>kv_key = [], kv_value = [0]\<rparr>, \<lparr>block = long_block, offsetIndex = 1\<rparr>)"
proof -
  have 3: "build \<lparr>bb_offsets = [0], bb_data = data long_block, blockSize = 4096\<rparr> = Inr long_block"
    by (simp add: build_def isEmpty_def long_block_def)
  have 4: "NextEntry \<lparr>block = long_block, offsetIndex = 0\<rparr> =
       Inr (Some \<lparr>kvd_key = [], valueDel = \<lparr>vd_value = [0], isTombstone = False\<rparr>\<rparr>,
            \<lparr>block = long_block, offsetIndex = 1\<rparr>)"
    by (simp add: NextEntry_def long_block_load advance_def)
  then have 5: "Next \<lparr>block = long_block, offsetIndex = 0\<rparr> =
       Inr (Some \<lparr>kv_key = [], kv_value = [0]\<rparr>, \<lparr>block = long_block, offsetIndex = 1\<rparr>)"
    by (subst Next.simps) simp
  from long_key_added 3 4 5 show ?thesis by (simp add: add_empty_value)
qed

text \<open>
  C9, as amended: for every builder and every key, \<^verbatim>\<open>add\<close> with a present value of
  length zero has the same outcome and leaves the same builder as \<^verbatim>\<open>add\<close> with an
  absent value; when the key is not empty and the record is accepted, the bytes added
  are the key length, the key and the tombstone sentinel, with no value bytes. When
  moreover the header of the record ends below position 65536, the record decodes with
  the key \<open>k\<close>, \<open>isTombstone\<close> true and an empty value, and \<^verbatim>\<open>Next\<close> skips it.
\<close>

theorem empty_value_is_tombstone:
  "add b k (Some []) = add b k None
   \<and> (k \<noteq> [] \<and> fst (add b k (Some [])) = Inr True \<longrightarrow>
        bb_data (snd (add b k (Some []))) = bb_data b @ be16 (word_of_nat (length k)) @ k @ be32 Tombstone
        \<and> bb_offsets (snd (add b k (Some []))) = bb_offsets b @ [word_of_nat (length (bb_data b))]
        \<and> build (snd (add b k (Some []))) = Inr (built_block (snd (add b k (Some [])))))
   \<and> (k \<noteq> [] \<and> fst (add b k (Some [])) = Inr True
        \<and> length (bb_data b) + 2 + length k + 4 < 65536 \<longrightarrow>
        NextEntry \<lparr>block = built_block (snd (add b k (Some []))), offsetIndex = length (bb_offsets b)\<rparr>
          = Inr (Some \<lparr>kvd_key = k, valueDel = \<lparr>vd_value = [], isTombstone = True\<rparr>\<rparr>,
                 \<lparr>block = built_block (snd (add b k (Some []))),
                  offsetIndex = length (bb_offsets b) + 1\<rparr>)
        \<and> Next \<lparr>block = built_block (snd (add b k (Some []))), offsetIndex = length (bb_offsets b)\<rparr>
          = Inr (None, \<lparr>block = built_block (snd (add b k (Some []))),
                        offsetIndex = length (bb_offsets b) + 1\<rparr>))"
proof (intro conjI impI)
  show "add b k (Some []) = add b k None"
    by (rule add_empty_value)
next
  assume a: "k \<noteq> [] \<and> fst (add b k (Some [])) = Inr True"
  then have s: "snd (add b k (Some [])) =
      b\<lparr>bb_offsets := bb_offsets b @ [word_of_nat (length (bb_data b))],
        bb_data := bb_data b @ record_bytes k (Some [])\<rparr>"
    by (auto simp: add_accept split: if_splits)
  show "bb_data (snd (add b k (Some []))) = bb_data b @ be16 (word_of_nat (length k)) @ k @ be32 Tombstone"
    by (simp add: s record_bytes_def value_bytes_def)
  show "bb_offsets (snd (add b k (Some []))) = bb_offsets b @ [word_of_nat (length (bb_data b))]"
    by (simp add: s)
  show "build (snd (add b k (Some []))) = Inr (built_block (snd (add b k (Some []))))"
    by (simp add: s build_def isEmpty_def built_block_def)
next
  assume a: "k \<noteq> [] \<and> fst (add b k (Some [])) = Inr True
        \<and> length (bb_data b) + 2 + length k + 4 < 65536"
  let ?b = "snd (add b k (Some []))"
  let ?i = "length (bb_offsets b)"
  from a have s: "?b =
      b\<lparr>bb_offsets := bb_offsets b @ [word_of_nat (length (bb_data b))],
        bb_data := bb_data b @ record_bytes k (Some [])\<rparr>"
    by (auto simp: add_accept split: if_splits)
  have off: "offsets (built_block ?b) ! ?i = word_of_nat (length (bb_data b))"
    by (simp add: s built_block_def)
  have i: "?i < length (offsets (built_block ?b))"
    by (simp add: s built_block_def)
  have d: "data (built_block ?b) = bb_data b @ record_bytes k (Some []) @ []"
    by (simp add: s built_block_def)
  from a have b1: "length (bb_data b) + 2 + length k + 4 < 65536" by simp
  have "loadAtCurrentOffset \<lparr>block = built_block ?b, offsetIndex = ?i\<rparr>
          = Inr (Some (entry_of (k, Some [])))"
    by (rule load_layout [OF off i d refl b1]) simp
  then show ne: "NextEntry \<lparr>block = built_block ?b, offsetIndex = ?i\<rparr>
          = Inr (Some \<lparr>kvd_key = k, valueDel = \<lparr>vd_value = [], isTombstone = True\<rparr>\<rparr>,
                 \<lparr>block = built_block ?b, offsetIndex = ?i + 1\<rparr>)"
    by (simp add: NextEntry_def advance_def entry_of_def)
  have "length (offsets (block \<lparr>block = built_block ?b, offsetIndex = ?i + 1\<rparr>))
          \<le> offsetIndex \<lparr>block = built_block ?b, offsetIndex = ?i + 1\<rparr>"
    by (simp add: s built_block_def)
  then have "NextEntry \<lparr>block = built_block ?b, offsetIndex = ?i + 1\<rparr>
               = Inr (None, \<lparr>block = built_block ?b, offsetIndex = ?i + 1\<rparr>)"
    by (rule NextEntry_end)
  then have "Next \<lparr>block = built_block ?b, offsetIndex = ?i + 1\<rparr>
               = Inr (None, \<lparr>block = built_block ?b, offsetIndex = ?i + 1\<rparr>)"
    by (subst Next.simps) simp
  with ne show "Next \<lparr>block = built_block ?b, offsetIndex = ?i\<rparr>
          = Inr (None, \<lparr>block = built_block ?b, offsetIndex = ?i + 1\<rparr>)"
    by (subst Next.simps) simp
qed

theorem empty_value_is_tombstone_witness:
  "add (NewBlockBuilder 4096) [1, 5] (Some []) =
     (Inr True, \<lparr>bb_offsets = [0], bb_data = [0, 2, 1, 5, 255, 255, 255, 255], blockSize = 4096\<rparr>)
   \<and> add (NewBlockBuilder 4096) [1, 5] None =
     (Inr True, \<lparr>bb_offsets = [0], bb_data = [0, 2, 1, 5, 255, 255, 255, 255], blockSize = 4096\<rparr>)
   \<and> NextEntry \<lparr>block = \<lparr>data = [0, 2, 1, 5, 255, 255, 255, 255], offsets = [0]\<rparr>, offsetIndex = 0\<rparr>
       = Inr (Some \<lparr>kvd_key = [1, 5], valueDel = \<lparr>vd_value = [], isTombstone = True\<rparr>\<rparr>,
              \<lparr>block = \<lparr>data = [0, 2, 1, 5, 255, 255, 255, 255], offsets = [0]\<rparr>, offsetIndex = 1\<rparr>)
   \<and> Next \<lparr>block = \<lparr>data = [0, 2, 1, 5, 255, 255, 255, 255], offsets = [0]\<rparr>, offsetIndex = 0\<rparr>
       = Inr (None, \<lparr>block = \<lparr>data = [0, 2, 1, 5, 255, 255, 255, 255], offsets = [0]\<rparr>, offsetIndex = 1\<rparr>)"
proof -
  have a: "add (NewBlockBuilder 4096) [1, 5] None =
     (Inr True, \<lparr>bb_offsets = [0], bb_data = [0, 2, 1, 5, 255, 255, 255, 255], blockSize = 4096\<rparr>)"
    by (simp add: add_accept NewBlockBuilder_def record_bytes_def value_bytes_def be16_def be32_def
        Tombstone_def)
  then have a': "add (NewBlockBuilder 4096) [1, 5] (Some []) =
     (Inr True, \<lparr>bb_offsets = [0], bb_data = [0, 2, 1, 5, 255, 255, 255, 255], blockSize = 4096\<rparr>)"
    by (simp add: add_empty_value)
  from empty_value_is_tombstone [of "NewBlockBuilder 4096" "[1, 5]"] show ?thesis
    unfolding a a' by (simp add: NewBlockBuilder_def built_block_def be16_def be32_def Tombstone_def)
qed

subsection \<open>C10: the estimated size is the encoded size\<close>

text \<open>
  C10: for a builder that holds at least one record, \<^verbatim>\<open>build\<close> succeeds and
  \<^verbatim>\<open>estimatedSize\<close> is the length of the encoding of the built block, that is 2 plus
  twice the number of offsets plus the length of the data.
\<close>

theorem estimatedSize_exact:
  assumes "\<not> isEmpty b"
  shows "\<exists>blk. build b = Inr blk
           \<and> estimatedSize b = length (encode blk)
           \<and> estimatedSize b = 2 + 2 * length (bb_offsets b) + length (bb_data b)"
  using assms by (simp add: build_def length_encode estimatedSize_eq)

theorem estimatedSize_exact_witness:
  "\<not> isEmpty \<lparr>bb_offsets = [0], bb_data = [0, 2, 1, 2, 0, 0, 0, 1, 3], blockSize = 10\<rparr>
   \<and> build \<lparr>bb_offsets = [0], bb_data = [0, 2, 1, 2, 0, 0, 0, 1, 3], blockSize = 10\<rparr>
       = Inr \<lparr>data = [0, 2, 1, 2, 0, 0, 0, 1, 3], offsets = [0]\<rparr>
   \<and> estimatedSize \<lparr>bb_offsets = [0], bb_data = [0, 2, 1, 2, 0, 0, 0, 1, 3], blockSize = 10\<rparr> = 13
   \<and> length (encode \<lparr>data = [0, 2, 1, 2, 0, 0, 0, 1, 3], offsets = [0]\<rparr>) = 13"
  using estimatedSize_exact [of "\<lparr>bb_offsets = [0], bb_data = [0, 2, 1, 2, 0, 0, 0, 1, 3], blockSize = 10\<rparr>"]
  by (auto simp: isEmpty_def build_def)

end
